theory Spec2Isabelle
  imports Main "HOL-Library.Word"
begin

section \<open>Strings\<close>

text \<open>
  A JavaScript string is a sequence of UTF-16 code units; offsets and lengths count code
  units.
\<close>

type_synonym jschar = "16 word"
type_synonym jsstring = "jschar list"

definition str :: "string \<Rightarrow> jsstring" where
  "str = map of_char"

text \<open>
  \<open>s.substring(a, b)\<close>: both arguments are clamped to the length and swapped when
  they are out of order. \<open>s.substring(a)\<close> is \<open>drop a s\<close>.
\<close>

definition substring :: "jsstring \<Rightarrow> nat \<Rightarrow> nat \<Rightarrow> jsstring" where
  "substring s a b =
     (let a' = min a (length s); b' = min b (length s)
      in take (max a' b' - min a' b') (drop (min a' b') s))"

text \<open>The decimal digits of a non-negative integer, as a template literal prints it.\<close>

fun numberToString :: "nat \<Rightarrow> jsstring" where
  "numberToString n =
     (if n < 10 then [of_nat (48 + n)]
      else numberToString (n div 10) @ [of_nat (48 + n mod 10)])"

declare numberToString.simps [simp del]

text \<open>\<open>xs.join(sep)\<close>\<close>

fun join :: "jsstring \<Rightarrow> jsstring list \<Rightarrow> jsstring" where
  "join sep [] = []"
| "join sep [x] = x"
| "join sep (x # y # ys) = x @ sep @ join sep (y # ys)"

section \<open>Regular expressions\<close>

text \<open>
  The fragment of the regular expression syntax that \<open>tableRegex\<close> uses. Groups,
  capturing or not, do not change which text is matched and are not represented; the
  quantifiers are the greedy ones.
\<close>

datatype regex =
    Chr jschar
  | Dot
  | Seq regex regex
  | Alt regex regex
  | Opt regex
  | Star regex

text \<open>\<open>a+\<close> is one mandatory iteration followed by \<open>a*\<close>.\<close>

definition Plus :: "regex \<Rightarrow> regex" where
  "Plus a = Seq a (Star a)"

text \<open>Without the \<open>s\<close> flag, \<open>.\<close> matches every code unit but the four line terminators.\<close>

definition lineTerminator :: "jschar \<Rightarrow> bool" where
  "lineTerminator c = (c = 0x000A \<or> c = 0x000D \<or> c = 0x2028 \<or> c = 0x2029)"

text \<open>
  The backtracking matcher. \<open>ends r s\<close> lists, in the order in which the engine tries
  them, the remainders of \<open>s\<close> after each way of matching \<open>r\<close> at the start of
  \<open>s\<close>; the engine commits to the first one. A greedy quantifier tries one more
  iteration before it tries to stop, and an iteration of a quantifier with minimum zero
  that consumes nothing is rejected.
\<close>

fun ends :: "regex \<Rightarrow> jsstring \<Rightarrow> jsstring list" where
  "ends (Chr c) s = (case s of [] \<Rightarrow> [] | x # xs \<Rightarrow> if x = c then [xs] else [])"
| "ends Dot s = (case s of [] \<Rightarrow> [] | x # xs \<Rightarrow> if lineTerminator x then [] else [xs])"
| "ends (Seq a b) s = concat (map (ends b) (ends a s))"
| "ends (Alt a b) s = ends a s @ ends b s"
| "ends (Opt a) s = filter (\<lambda>t. length t < length s) (ends a s) @ [s]"
| "ends (Star a) s =
     concat (map (\<lambda>t. if length t < length s then ends (Star a) t else []) (ends a s)) @ [s]"

text \<open>
  \<open>r.exec(s)\<close> for a regular expression with the \<open>g\<close> flag whose \<open>lastIndex\<close> is
  \<open>i\<close>: the first position from \<open>i\<close> on at which \<open>r\<close> matches. The result is
  \<open>match.index\<close> and the new \<open>lastIndex\<close>, the end of the match; \<open>None\<close> is
  \<open>null\<close>.
\<close>

function exec :: "regex \<Rightarrow> jsstring \<Rightarrow> nat \<Rightarrow> (nat \<times> nat) option" where
  "exec r s i =
     (if length s < i then None
      else case ends r (drop i s) of
             [] \<Rightarrow> exec r s (Suc i)
           | t # _ \<Rightarrow> Some (i, length s - length t))"
  by pat_completeness auto
termination
  by (relation "measure (\<lambda>(r, s, i). Suc (length s) - i)") auto

declare exec.simps [simp del]

section \<open>ResultDisplay.tsx\<close>

datatype part_type = markdown | table

record DocumentPart =
  id_part :: jsstring
  type_part :: part_type
  content :: jsstring

definition CR :: jschar where "CR = 0x000D"
definition LF :: jschar where "LF = 0x000A"
definition pipe :: jschar where "pipe = 0x007C"
definition hyphen :: jschar where "hyphen = 0x002D"

text \<open>\<open>(?:\r?\n|\r)\<close>\<close>

definition lineBreak :: regex where
  "lineBreak = Alt (Seq (Opt (Chr CR)) (Chr LF)) (Chr CR)"

text \<open>
  \<open>\|.*\|(?:\r?\n|\r)?\<close>: the first four terms of the pattern, and again the body of
  its last group.
\<close>

definition rowRegex :: regex where
  "rowRegex = Seq (Chr pipe) (Seq (Star Dot) (Seq (Chr pipe) (Opt lineBreak)))"

text \<open>\<open>\|(?:-+\|)+(\r?\n|\r)?\<close>: the terms of the pattern between the two.\<close>

definition delimiterRegex :: regex where
  "delimiterRegex =
     Seq (Chr pipe) (Seq (Plus (Seq (Plus (Chr hyphen)) (Chr pipe))) (Opt lineBreak))"

text \<open>
  \<open>/(\|.*\|(?:\r?\n|\r)?\|(?:-+\|)+(\r?\n|\r)?(?:\|.*\|(?:\r?\n|\r)?)*)/g\<close>. The terms
  follow each other as in the pattern; how a sequence is bracketed makes no difference to
  the matcher (\<open>ends_Seq_assoc\<close> below).
\<close>


definition tableRegex :: regex where
  "tableRegex = Seq rowRegex (Seq delimiterRegex (Star rowRegex))"

text \<open>
  The body of \<open>parseMarkdown\<close>: the \<open>while\<close> loop over the matches, with the local
  variables \<open>lastIndex\<close> and \<open>parts\<close> as arguments, and the statements after the loop
  in the branch where \<open>exec\<close> returns \<open>null\<close>. The loop has no bound of its own, so the
  result is an option and \<open>None\<close> stands for a loop that does not end.
\<close>

partial_function (option) parseLoop ::
  "jsstring \<Rightarrow> nat \<Rightarrow> DocumentPart list \<Rightarrow> DocumentPart list option" where
  "parseLoop md lastIndex parts =
     (case exec tableRegex md lastIndex of
        None \<Rightarrow>
          Some (if lastIndex < length md
                then parts @ [\<lparr>id_part = str ''md-'' @ numberToString lastIndex,
                               type_part = markdown,
                               content = drop lastIndex md\<rparr>]
                else parts)
      | Some (index, lastIndex') \<Rightarrow>
          parseLoop md lastIndex'
            ((if lastIndex < index
              then parts @ [\<lparr>id_part = str ''md-'' @ numberToString lastIndex,
                             type_part = markdown,
                             content = substring md lastIndex index\<rparr>]
              else parts)
             @ [\<lparr>id_part = str ''tbl-'' @ numberToString index,
                   type_part = table,
                   content = substring md index lastIndex'\<rparr>]))"

definition parseMarkdown :: "jsstring \<Rightarrow> DocumentPart list option" where
  "parseMarkdown md = parseLoop md 0 []"

text \<open>
  The state of the component is \<open>documentParts\<close>. The effect on \<open>markdownContent\<close>
  replaces it: the empty string is falsy.
\<close>

definition load :: "jsstring \<Rightarrow> DocumentPart list option" where
  "load markdownContent = (if markdownContent \<noteq> [] then parseMarkdown markdownContent else Some [])"

definition handleTableUpdate ::
  "jsstring \<Rightarrow> jsstring \<Rightarrow> DocumentPart list \<Rightarrow> DocumentPart list" where
  "handleTableUpdate tableId updatedMarkdown currentParts =
     map (\<lambda>part. if id_part part = tableId then part\<lparr>content := updatedMarkdown\<rparr> else part)
       currentParts"

text \<open>\<open>combinedMarkdown\<close> in \<open>handleSaveAsDocx\<close>\<close>

definition combinedMarkdown :: "DocumentPart list \<Rightarrow> jsstring" where
  "combinedMarkdown documentParts = join [LF, LF] (map content documentParts)"


section \<open>The runs of the loop\<close>

text \<open>The two object literals that \<open>parseMarkdown\<close> pushes.\<close>

definition mdPart :: "nat \<Rightarrow> jsstring \<Rightarrow> DocumentPart" where
  "mdPart i txt = \<lparr>id_part = str ''md-'' @ numberToString i, type_part = markdown, content = txt\<rparr>"

definition tblPart :: "nat \<Rightarrow> jsstring \<Rightarrow> DocumentPart" where
  "tblPart i txt = \<lparr>id_part = str ''tbl-'' @ numberToString i, type_part = table, content = txt\<rparr>"

text \<open>
  \<open>segs md li ps\<close>: from \<open>lastIndex = li\<close> on, the loop and the statements after it
  push exactly the parts \<open>ps\<close>. One rule for each path through the loop body and
  through the final \<open>if\<close>.
\<close>

inductive segs :: "jsstring \<Rightarrow> nat \<Rightarrow> DocumentPart list \<Rightarrow> bool" for md where
  segs_end: "exec tableRegex md li = None \<Longrightarrow> \<not> li < length md \<Longrightarrow> segs md li []"
| segs_tail: "exec tableRegex md li = None \<Longrightarrow> li < length md \<Longrightarrow>
     segs md li [mdPart li (drop li md)]"
| segs_table: "exec tableRegex md li = Some (idx, e) \<Longrightarrow> \<not> li < idx \<Longrightarrow> segs md e ps \<Longrightarrow>
     segs md li (tblPart idx (substring md idx e) # ps)"
| segs_gap: "exec tableRegex md li = Some (idx, e) \<Longrightarrow> li < idx \<Longrightarrow> segs md e ps \<Longrightarrow>
     segs md li (mdPart li (substring md li idx) # tblPart idx (substring md idx e) # ps)"

text \<open>The kind and the text of each part, without the ids.\<close>

definition kindsAndTexts :: "DocumentPart list \<Rightarrow> (part_type \<times> jsstring) list" where
  "kindsAndTexts ps = map (\<lambda>p. (type_part p, content p)) ps"

section \<open>Ids and the held sequence\<close>

text \<open>The offset in the document at which each part starts, the first one starting at \<open>i\<close>.\<close>

fun offsets :: "nat \<Rightarrow> DocumentPart list \<Rightarrow> nat list" where
  "offsets i [] = []"
| "offsets i (p # ps) = i # offsets (i + length (content p)) ps"

text \<open>The id of a part as a function of its kind and of the offset at which it starts.\<close>

definition partId :: "part_type \<Rightarrow> nat \<Rightarrow> jsstring" where
  "partId k i = (case k of markdown \<Rightarrow> str ''md-'' | table \<Rightarrow> str ''tbl-'') @ numberToString i"

text \<open>The number that a string of decimal digits denotes.\<close>

definition fromDigits :: "jsstring \<Rightarrow> nat" where
  "fromDigits ds = foldl (\<lambda>n c. 10 * n + (unat c - 48)) 0 ds"

text \<open>
  The values that \<open>documentParts\<close> takes: the initial state, what the effect on
  \<open>markdownContent\<close> sets, and what \<open>handleTableUpdate\<close> makes of a value.
\<close>

inductive held :: "DocumentPart list \<Rightarrow> bool" where
  held_initial: "held []"
| held_load: "load markdownContent = Some ps \<Longrightarrow> held ps"
| held_update: "held ps \<Longrightarrow> held (handleTableUpdate tableId updatedMarkdown ps)"

section \<open>The language of a regular expression\<close>

text \<open>
  What a regular expression matches, without the order in which the engine tries the
  alternatives: \<open>lang r\<close> is the set of the strings that \<open>r\<close> matches from their
  first to their last character.
\<close>

inductive_set starLang :: "jsstring set \<Rightarrow> jsstring set" for A where
  starLang_empty: "[] \<in> starLang A"
| starLang_step: "u \<in> A \<Longrightarrow> v \<in> starLang A \<Longrightarrow> u @ v \<in> starLang A"

fun lang :: "regex \<Rightarrow> jsstring set" where
  "lang (Chr c) = {[c]}"
| "lang Dot = {[x] | x. \<not> lineTerminator x}"
| "lang (Seq a b) = {u @ v | u v. u \<in> lang a \<and> v \<in> lang b}"
| "lang (Alt a b) = lang a \<union> lang b"
| "lang (Opt a) = insert [] (lang a)"
| "lang (Star a) = starLang (lang a)"

section \<open>The shape of a table\<close>

text \<open>
  The texts that \<open>tableRegex\<close> matches, in words: a line break is \<open>\n\<close>, \<open>\r\n\<close> or
  \<open>\r\<close>; a row is a pipe, any characters other than line terminators, a pipe, and
  possibly a line break; a delimiter row is a pipe, one or more groups of one or more
  hyphens and a pipe, and possibly a line break; a table is a row, a delimiter row, and
  any number of rows.
\<close>

definition lineBreaks :: "jsstring set" where
  "lineBreaks = {[LF], [CR, LF], [CR]}"

definition isRow :: "jsstring \<Rightarrow> bool" where
  "isRow u \<longleftrightarrow>
     (\<exists>d n. u = pipe # d @ pipe # n \<and> (\<forall>c \<in> set d. \<not> lineTerminator c) \<and>
            (n = [] \<or> n \<in> lineBreaks))"

definition isDelimiterRow :: "jsstring \<Rightarrow> bool" where
  "isDelimiterRow u \<longleftrightarrow>
     (\<exists>gs n. u = pipe # concat gs @ n \<and> gs \<noteq> [] \<and>
             (\<forall>g \<in> set gs. \<exists>k. 0 < k \<and> g = replicate k hyphen @ [pipe]) \<and>
             (n = [] \<or> n \<in> lineBreaks))"

definition isTableText :: "jsstring \<Rightarrow> bool" where
  "isTableText u \<longleftrightarrow>
     (\<exists>h d rows. u = h @ d @ concat rows \<and> isRow h \<and> isDelimiterRow d \<and>
                 (\<forall>x \<in> set rows. isRow x))"

section \<open>Where tables begin and end\<close>

text \<open>
  A table, or a row, begins at offset \<open>j\<close> of the document: the text from \<open>j\<close> on
  starts with a text of that shape.
\<close>

definition tableAt :: "jsstring \<Rightarrow> nat \<Rightarrow> bool" where
  "tableAt md j \<longleftrightarrow> (\<exists>v w. drop j md = v @ w \<and> isTableText v)"

definition rowAt :: "jsstring \<Rightarrow> nat \<Rightarrow> bool" where
  "rowAt md j \<longleftrightarrow> (\<exists>v w. drop j md = v @ w \<and> isRow v)"

text \<open>
  \<open>x\<close> is the longest text with the property \<open>P\<close> that \<open>s\<close> starts with.
\<close>

definition longestPrefix :: "(jsstring \<Rightarrow> bool) \<Rightarrow> jsstring \<Rightarrow> jsstring \<Rightarrow> bool" where
  "longestPrefix P s x \<longleftrightarrow>
     P x \<and> (\<exists>t. s = x @ t) \<and> (\<forall>y t. P y \<and> s = y @ t \<longrightarrow> length y \<le> length x)"

text \<open>A delimiter row begins right after the first \<open>length h\<close> characters of \<open>s\<close>.\<close>

definition delimiterAfter :: "jsstring \<Rightarrow> jsstring \<Rightarrow> bool" where
  "delimiterAfter s h \<longleftrightarrow> (\<exists>d t. drop (length h) s = d @ t \<and> isDelimiterRow d)"

text \<open>
  \<open>r\<close> is the text of the rows taken greedily from the start of \<open>s\<close>: as long as a
  row begins, the longest row that begins there is taken, and the next row is looked for
  right after it.
\<close>

inductive greedyRows :: "jsstring \<Rightarrow> jsstring \<Rightarrow> bool" where
  greedyRows_none: "\<not> rowAt s 0 \<Longrightarrow> greedyRows s []"
| greedyRows_more: "longestPrefix isRow s x \<Longrightarrow> greedyRows (drop (length x) s) r \<Longrightarrow>
     greedyRows s (x @ r)"

text \<open>
  \<open>u\<close> is the greedy table at the start of \<open>s\<close>: the longest header row after which
  a delimiter row begins, then the longest delimiter row, then the rows taken greedily.
\<close>

definition greedyTable :: "jsstring \<Rightarrow> jsstring \<Rightarrow> bool" where
  "greedyTable s u \<longleftrightarrow>
     (\<exists>h d r. u = h @ d @ r \<and>
        longestPrefix (\<lambda>x. isRow x \<and> delimiterAfter s x) s h \<and>
        longestPrefix isDelimiterRow (drop (length h) s) d \<and>
        greedyRows (drop (length h + length d) s) r)"

text \<open>
  A part at offset \<open>i\<close> is well placed: the text of a table part is the greedy table
  that begins at \<open>i\<close>; no table begins at any offset inside a prose part.
\<close>

definition wellPlaced :: "jsstring \<Rightarrow> DocumentPart \<Rightarrow> nat \<Rightarrow> bool" where
  "wellPlaced md p i \<longleftrightarrow>
     (case type_part p of
        table \<Rightarrow> greedyTable (drop i md) (content p)
      | markdown \<Rightarrow> (\<forall>j. i \<le> j \<and> j < i + length (content p) \<longrightarrow> \<not> tableAt md j))"

text \<open>
  \<open>ps\<close> segments the document from offset \<open>i\<close> on: the texts of the parts are the
  document from \<open>i\<close> on, two neighbours never have the same kind, no text is empty, and
  every part is well placed.
\<close>

definition segmentation :: "jsstring \<Rightarrow> nat \<Rightarrow> DocumentPart list \<Rightarrow> bool" where
  "segmentation md i ps \<longleftrightarrow>
     concat (map content ps) = drop i md \<and> distinct_adj (map type_part ps) \<and>
     (\<forall>p \<in> set ps. content p \<noteq> []) \<and> list_all2 (wellPlaced md) ps (offsets i ps)"

text \<open>
  The rule for tables in the words of the specification, on the lines of a region: a
  header row with at least one pipe, a delimiter row made of pipes and hyphens only, and
  any number of rows with a pipe.
\<close>

fun specTableRegion :: "jsstring list \<Rightarrow> bool" where
  "specTableRegion (header # delimiter # rows) =
     (pipe \<in> set header \<and> delimiter \<noteq> [] \<and> set delimiter \<subseteq> {pipe, hyphen} \<and>
      (\<forall>row \<in> set rows. pipe \<in> set row))"
| "specTableRegion _ = False"

text \<open>
  The lines of a document, in the same words: the texts between its line breaks, a line
  break being \<open>\r\n\<close>, \<open>\n\<close> or \<open>\r\<close>.
\<close>

fun splitLines :: "jsstring \<Rightarrow> jsstring list" where
  "splitLines [] = [[]]"
| "splitLines (c # cs) =
     (if c = CR \<and> cs \<noteq> [] \<and> hd cs = LF then [] # splitLines (tl cs)
      else if c = CR \<or> c = LF then [] # splitLines cs
      else (case splitLines cs of [] \<Rightarrow> [[c]] | l # ls \<Rightarrow> (c # l) # ls))"

text \<open>
  A document contains a table region in the words of the specification: two consecutive
  lines of it are a header row and a delimiter row.
\<close>

fun specRegionIn :: "jsstring list \<Rightarrow> bool" where
  "specRegionIn (header # delimiter # rest) =
     (specTableRegion [header, delimiter] \<or> specRegionIn (delimiter # rest))"
| "specRegionIn _ = False"

definition specContainsTableRegion :: "jsstring \<Rightarrow> bool" where
  "specContainsTableRegion md = specRegionIn (splitLines md)"

section \<open>Auxiliary notions for segmenting the combined text\<close>

text \<open>Every line feed but the last character is followed by a pipe.\<close>

fun lfOk :: "jsstring \<Rightarrow> bool" where
  "lfOk [] = True"
| "lfOk [x] = True"
| "lfOk (x # y # zs) = ((x = LF \<longrightarrow> y = pipe) \<and> lfOk (y # zs))"

text \<open>
  Every line feed but the last character is followed by a pipe, and every carriage return
  but the last character by a pipe or by a line feed: a text holds no two line breaks in
  a row.
\<close>

fun lbOk :: "jsstring \<Rightarrow> bool" where
  "lbOk [] = True"
| "lbOk [x] = True"
| "lbOk (x # y # zs) = ((x = LF \<longrightarrow> y = pipe) \<and> (x = CR \<longrightarrow> y = pipe \<or> y = LF) \<and> lbOk (y # zs))"

text \<open>The order of the remainders of a match: less text left is more text matched.\<close>

abbreviation shorter :: "jsstring \<Rightarrow> jsstring \<Rightarrow> bool" where
  "shorter a b \<equiv> length a < length b"

text \<open>
  What a result of \<open>parseMarkdown\<close> knows about its own texts, without offsets: the
  text of a table part is the first match of the text that starts with it, a table part
  is followed by a prose part or by nothing, and no table begins inside a prose part.
\<close>

inductive tiled :: "DocumentPart list \<Rightarrow> bool" where
  tiled_nil: "tiled []"
| tiled_tail: "type_part p = markdown \<Longrightarrow> content p \<noteq> [] \<Longrightarrow>
     \<forall>j. ends tableRegex (drop j (content p)) = [] \<Longrightarrow> tiled [p]"
| tiled_table: "type_part p = table \<Longrightarrow>
     ends tableRegex (content p @ concat (map content ps)) \<noteq> [] \<Longrightarrow>
     hd (ends tableRegex (content p @ concat (map content ps))) = concat (map content ps) \<Longrightarrow>
     ps = [] \<or> type_part (hd ps) = markdown \<Longrightarrow> tiled ps \<Longrightarrow> tiled (p # ps)"
| tiled_gap: "type_part p = markdown \<Longrightarrow> content p \<noteq> [] \<Longrightarrow>
     \<forall>j < length (content p). ends tableRegex (drop j (content p) @ concat (map content (q # ps))) = [] \<Longrightarrow>
     type_part q = table \<Longrightarrow> tiled (q # ps) \<Longrightarrow> tiled (p # q # ps)"

section \<open>The matcher and the loop\<close>

declare ends.simps(6) [simp del]

lemma ends_suffix: "t \<in> set (ends r s) \<Longrightarrow> \<exists>u. s = u @ t"
proof (induction r s arbitrary: t rule: ends.induct)
  case (1 c s)
  then show ?case by (cases s) (auto split: if_splits)
next
  case (2 s)
  then show ?case by (cases s) (auto split: if_splits)
next
  case (3 a b s)
  then obtain m where m: "m \<in> set (ends a s)" "t \<in> set (ends b m)" by auto
  from "3.IH"(1)[OF m(1)] obtain u where "s = u @ m" by blast
  moreover from "3.IH"(2)[OF m(1) m(2)] obtain v where "m = v @ t" by blast
  ultimately have "s = (u @ v) @ t" by simp
  then show ?case by blast
next
  case (4 a b s)
  then show ?case by auto
next
  case (5 a s)
  then show ?case by auto
next
  case (6 a s)
  show ?case
  proof (cases "t = s")
    case True
    then show ?thesis by simp
  next
    case False
    with "6.prems" obtain m where m: "m \<in> set (ends a s)" "length m < length s"
      "t \<in> set (ends (Star a) m)"
      by (auto simp: ends.simps(6)[of a s] split: if_splits)
    from "6.IH"(1)[OF m(1)] obtain u where "s = u @ m" by blast
    moreover from "6.IH"(2)[OF m(1) m(2) m(3)] obtain v where "m = v @ t" by blast
    ultimately have "s = (u @ v) @ t" by simp
    then show ?thesis by blast
  qed
qed

lemma ends_length: "t \<in> set (ends r s) \<Longrightarrow> length t \<le> length s"
  using ends_suffix by fastforce

lemma ends_Chr_Seq: "t \<in> set (ends (Seq (Chr c) b) s) \<Longrightarrow> length t < length s"
proof -
  assume "t \<in> set (ends (Seq (Chr c) b) s)"
  then obtain m where m: "m \<in> set (ends (Chr c) s)" "t \<in> set (ends b m)" by auto
  from m(1) have "length m < length s" by (cases s) (auto split: if_splits)
  with ends_length[OF m(2)] show ?thesis by simp
qed

lemma ends_rowRegex_less: "t \<in> set (ends rowRegex s) \<Longrightarrow> length t < length s"
  unfolding rowRegex_def by (rule ends_Chr_Seq)

lemma ends_tableRegex_less:
  assumes "t \<in> set (ends tableRegex s)"
  shows "length t < length s"
proof -
  from assms obtain m where m: "m \<in> set (ends rowRegex s)"
    "t \<in> set (ends (Seq delimiterRegex (Star rowRegex)) m)"
    by (auto simp: tableRegex_def)
  from ends_rowRegex_less[OF m(1)] ends_length[OF m(2)] show ?thesis by simp
qed

lemma exec_None: "exec r s i = None \<Longrightarrow> i \<le> j \<Longrightarrow> j \<le> length s \<Longrightarrow> ends r (drop j s) = []"
proof (induction r s i rule: exec.induct)
  case (1 r s i)
  from "1.prems" have i: "\<not> length s < i" by simp
  show ?case
  proof (cases "ends r (drop i s)")
    case Nil
    with "1.prems" i have n: "exec r s (Suc i) = None" by (simp add: exec.simps[of r s i])
    show ?thesis
    proof (cases "j = i")
      case True
      with Nil show ?thesis by simp
    next
      case False
      with "1.prems" have "Suc i \<le> j" by simp
      from "1.IH"[OF i Nil n this "1.prems"(3)] show ?thesis .
    qed
  next
    case (Cons t ts)
    with "1.prems" i show ?thesis by (simp add: exec.simps[of r s i])
  qed
qed

lemma exec_Some:
  "exec r s i = Some (idx, e) \<Longrightarrow>
     i \<le> idx \<and> idx \<le> length s \<and> ends r (drop idx s) \<noteq> [] \<and>
     e = length s - length (hd (ends r (drop idx s))) \<and>
     (\<forall>j. i \<le> j \<and> j < idx \<longrightarrow> ends r (drop j s) = [])"
proof (induction r s i rule: exec.induct)
  case (1 r s i)
  have i: "\<not> length s < i"
    using "1.prems" by (cases "length s < i") (simp_all add: exec.simps[of r s i])
  show ?case
  proof (cases "ends r (drop i s)")
    case Nil
    with "1.prems" i have n: "exec r s (Suc i) = Some (idx, e)" by (simp add: exec.simps[of r s i])
    from "1.IH"[OF i Nil n] have *: "Suc i \<le> idx" "idx \<le> length s" "ends r (drop idx s) \<noteq> []"
      "e = length s - length (hd (ends r (drop idx s)))"
      "\<forall>j. Suc i \<le> j \<and> j < idx \<longrightarrow> ends r (drop j s) = []" by auto
    have "\<forall>j. i \<le> j \<and> j < idx \<longrightarrow> ends r (drop j s) = []"
    proof (intro allI impI)
      fix j assume j: "i \<le> j \<and> j < idx"
      show "ends r (drop j s) = []"
      proof (cases "j = i")
        case True with Nil show ?thesis by simp
      next
        case False with j *(5) show ?thesis by simp
      qed
    qed
    with * show ?thesis by simp
  next
    case (Cons t ts)
    with "1.prems" i have "idx = i" "e = length s - length t" by (simp_all add: exec.simps[of r s i])
    moreover have "\<forall>j. i \<le> j \<and> j < i \<longrightarrow> ends r (drop j s) = []"
    proof (intro allI impI)
      fix j assume "i \<le> j \<and> j < i"
      then have False by linarith
      then show "ends r (drop j s) = []" ..
    qed
    ultimately show ?thesis using Cons i by simp
  qed
qed

lemma exec_table_bounds:
  assumes "exec tableRegex md li = Some (idx, e)"
  shows "li \<le> idx" "idx < e" "e \<le> length md"
proof -
  from exec_Some[OF assms] have *: "li \<le> idx" "idx \<le> length md" "ends tableRegex (drop idx md) \<noteq> []"
    "e = length md - length (hd (ends tableRegex (drop idx md)))" by auto
  from *(3) have "hd (ends tableRegex (drop idx md)) \<in> set (ends tableRegex (drop idx md))" by simp
  from ends_tableRegex_less[OF this] have "length (hd (ends tableRegex (drop idx md))) < length md - idx"
    by simp
  with * show "li \<le> idx" "idx < e" "e \<le> length md" by auto
qed

lemma parseLoop_unfold:
  "parseLoop md lastIndex parts =
     (case exec tableRegex md lastIndex of
        None \<Rightarrow> Some (if lastIndex < length md then parts @ [mdPart lastIndex (drop lastIndex md)] else parts)
      | Some (index, lastIndex') \<Rightarrow>
          parseLoop md lastIndex'
            ((if lastIndex < index then parts @ [mdPart lastIndex (substring md lastIndex index)] else parts)
             @ [tblPart index (substring md index lastIndex')]))"
  unfolding mdPart_def tblPart_def by (rule parseLoop.simps)

lemma parseLoop_segs:
  "li \<le> length md \<Longrightarrow> \<exists>ps. parseLoop md li parts = Some (parts @ ps) \<and> segs md li ps"
proof (induction "length md - li" arbitrary: li parts rule: less_induct)
  case less
  show ?case
  proof (cases "exec tableRegex md li")
    case None
    show ?thesis
    proof (cases "li < length md")
      case True
      have "parseLoop md li parts = Some (parts @ [mdPart li (drop li md)])"
        using None True by (simp add: parseLoop_unfold[of md li parts])
      moreover have "segs md li [mdPart li (drop li md)]"
        using None True by (rule segs_tail)
      ultimately show ?thesis by blast
    next
      case False
      have "parseLoop md li parts = Some (parts @ [])"
        using None False by (simp add: parseLoop_unfold[of md li parts])
      moreover have "segs md li []"
        using None False by (rule segs_end)
      ultimately show ?thesis by blast
    qed
  next
    case (Some p)
    obtain idx e where p: "p = (idx, e)" by (cases p)
    from exec_table_bounds[OF Some[unfolded p]] have b: "li \<le> idx" "idx < e" "e \<le> length md" .
    then have "length md - e < length md - li" by simp
    from less.hyps[OF this b(3)]
    have IH: "\<exists>ps. parseLoop md e parts' = Some (parts' @ ps) \<and> segs md e ps" for parts' .
    show ?thesis
    proof (cases "li < idx")
      case True
      from IH[of "(parts @ [mdPart li (substring md li idx)]) @ [tblPart idx (substring md idx e)]"]
      obtain ps where ps: "parseLoop md e ((parts @ [mdPart li (substring md li idx)]) @ [tblPart idx (substring md idx e)])
         = Some (((parts @ [mdPart li (substring md li idx)]) @ [tblPart idx (substring md idx e)]) @ ps)"
        "segs md e ps" by blast
      have "parseLoop md li parts = Some (parts @ (mdPart li (substring md li idx) # tblPart idx (substring md idx e) # ps))"
        using ps(1) Some p True by (simp add: parseLoop_unfold[of md li parts])
      moreover have "segs md li (mdPart li (substring md li idx) # tblPart idx (substring md idx e) # ps)"
        using Some[unfolded p] True ps(2) by (rule segs_gap)
      ultimately show ?thesis by blast
    next
      case False
      from IH[of "parts @ [tblPart idx (substring md idx e)]"]
      obtain ps where ps: "parseLoop md e (parts @ [tblPart idx (substring md idx e)])
         = Some ((parts @ [tblPart idx (substring md idx e)]) @ ps)"
        "segs md e ps" by blast
      have "parseLoop md li parts = Some (parts @ (tblPart idx (substring md idx e) # ps))"
        using ps(1) Some p False by (simp add: parseLoop_unfold[of md li parts])
      moreover have "segs md li (tblPart idx (substring md idx e) # ps)"
        using Some[unfolded p] False ps(2) by (rule segs_table)
      ultimately show ?thesis by blast
    qed
  qed
qed

lemma parseMarkdown_segs: "\<exists>ps. parseMarkdown md = Some ps \<and> segs md 0 ps"
  using parseLoop_segs[of 0 md "[]"] by (simp add: parseMarkdown_def)

lemma substring_le: "a \<le> b \<Longrightarrow> b \<le> length s \<Longrightarrow> substring s a b = take (b - a) (drop a s)"
  by (simp add: substring_def Let_def min_def max_def)

lemma segs_concat: "segs md li ps \<Longrightarrow> li \<le> length md \<Longrightarrow> concat (map content ps) = drop li md"
proof (induction rule: segs.induct)
  case (segs_end li)
  then show ?case by simp
next
  case (segs_tail li)
  then show ?case by (simp add: mdPart_def)
next
  case (segs_table li idx e ps)
  from exec_table_bounds[OF segs_table.hyps(1)] segs_table.hyps(2)
  have b: "li = idx" "idx < e" "e \<le> length md" by auto
  have "take (e - idx) (drop idx md) @ drop e md = drop idx md"
    proof -
    have "drop e md = drop (e - idx) (drop idx md)" using b by simp
    then show ?thesis by (simp only: append_take_drop_id)
  qed
  with segs_table.IH b show ?case by (simp add: tblPart_def substring_le)
next
  case (segs_gap li idx e ps)
  from exec_table_bounds[OF segs_gap.hyps(1)]
  have b: "li \<le> idx" "idx < e" "e \<le> length md" by auto
  have 1: "take (e - idx) (drop idx md) @ drop e md = drop idx md"
    proof -
    have "drop e md = drop (e - idx) (drop idx md)" using b by simp
    then show ?thesis by (simp only: append_take_drop_id)
  qed
  have 2: "take (idx - li) (drop li md) @ drop idx md = drop li md"
    proof -
    have "drop idx md = drop (idx - li) (drop li md)" using b by simp
    then show ?thesis by (simp only: append_take_drop_id)
  qed
  from segs_gap.IH b 1 2 show ?case by (simp add: tblPart_def mdPart_def substring_le)
qed


lemmas eval_simps = parseMarkdown_def parseLoop.simps exec.simps ends.simps(6) numberToString.simps
  str_def substring_def tableRegex_def rowRegex_def delimiterRegex_def lineBreak_def Plus_def
  lineTerminator_def CR_def LF_def pipe_def hyphen_def Let_def

section \<open>Segmentation\<close>

text \<open>
  C1. For every document, \<open>parseMarkdown\<close> returns, and the texts of the parts it returns,
  concatenated in order with nothing between them, are the document: the parts cover the
  source without overlap, and no character is lost or repeated.
\<close>

theorem parseMarkdown_partition:
  "\<exists>ps. parseMarkdown md = Some ps \<and> concat (map content ps) = md"
proof -
  obtain ps where ps: "parseMarkdown md = Some ps" "segs md 0 ps"
    using parseMarkdown_segs by blast
  from segs_concat[OF ps(2)] have "concat (map content ps) = md" by simp
  with ps(1) show ?thesis by blast
qed

text \<open>
  C3, as the claim states it: the three parts would be the prose \<open>Hello\n\n\<close>, the table
  with its three lines, and the prose \<open>\n\nBye\<close>. The code does not return that.
\<close>

theorem scenario_A_counterexample:
  "map_option kindsAndTexts
     (parseMarkdown (str ''Hello\<newline>\<newline>| a | b |\<newline>|---|---|\<newline>| 1 | 2 |\<newline>\<newline>Bye'')) \<noteq>
   Some [(markdown, str ''Hello\<newline>\<newline>''),
         (table, str ''| a | b |\<newline>|---|---|\<newline>| 1 | 2 |\<newline>''),
         (markdown, str ''\<newline>\<newline>Bye'')]"
  by (simp add: eval_simps kindsAndTexts_def)

text \<open>
  C3, amended: the table takes the line break that ends its last row, so the last part is
  the prose \<open>\nBye\<close>, with one line break. The first part starts at offset 0, the table at
  7 and the last part at 37.
\<close>

theorem scenario_A:
  "parseMarkdown (str ''Hello\<newline>\<newline>| a | b |\<newline>|---|---|\<newline>| 1 | 2 |\<newline>\<newline>Bye'') =
   Some [\<lparr>id_part = str ''md-0'', type_part = markdown, content = str ''Hello\<newline>\<newline>''\<rparr>,
         \<lparr>id_part = str ''tbl-7'', type_part = table,
            content = str ''| a | b |\<newline>|---|---|\<newline>| 1 | 2 |\<newline>''\<rparr>,
         \<lparr>id_part = str ''md-37'', type_part = markdown, content = str ''\<newline>Bye''\<rparr>]"
  by (simp add: eval_simps)

text \<open>
  C5. \<open>parseMarkdown\<close> returns a sequence of parts for every string: the loop ends on
  every input. The empty string gives no part, and a header row with no delimiter row
  under it is one prose part that holds the whole input.
\<close>

theorem parseMarkdown_total:
  "(\<exists>ps. parseMarkdown md = Some ps) \<and>
   parseMarkdown [] = Some [] \<and>
   parseMarkdown (str ''| a | b |\<newline>| 1 | 2 |'') =
     Some [\<lparr>id_part = str ''md-0'', type_part = markdown,
             content = str ''| a | b |\<newline>| 1 | 2 |''\<rparr>]"
proof (intro conjI)
  show "\<exists>ps. parseMarkdown md = Some ps"
    using parseMarkdown_segs[of md] by blast
  show "parseMarkdown [] = Some []"
    by (simp add: eval_simps)
  show "parseMarkdown (str ''| a | b |\<newline>| 1 | 2 |'') =
     Some [\<lparr>id_part = str ''md-0'', type_part = markdown,
             content = str ''| a | b |\<newline>| 1 | 2 |''\<rparr>]"
    by (simp add: eval_simps)
qed

section \<open>Updating a part\<close>

text \<open>
  C9. \<open>handleTableUpdate\<close> with an id that no part of the current sequence has returns the
  sequence as it is; the empty sequence, where no id is present, is such a case.
\<close>

theorem handleTableUpdate_stale_id:
  "tableId \<notin> id_part ` set currentParts \<Longrightarrow>
   handleTableUpdate tableId updatedMarkdown currentParts = currentParts"
  unfolding handleTableUpdate_def by (induction currentParts) auto

theorem handleTableUpdate_stale_id_witness:
  "str ''tbl-9'' \<notin> id_part ` set [mdPart 0 (str ''a''), tblPart 1 (str ''|b||-|'')] \<and>
   handleTableUpdate (str ''tbl-9'') (str ''|x||-|'') [mdPart 0 (str ''a''), tblPart 1 (str ''|b||-|'')]
     = [mdPart 0 (str ''a''), tblPart 1 (str ''|b||-|'')] \<and>
   handleTableUpdate (str ''tbl-9'') (str ''|x||-|'') [] = []"
proof -
  have h: "str ''tbl-9'' \<notin> id_part ` set [mdPart 0 (str ''a''), tblPart 1 (str ''|b||-|'')]"
    by (simp add: mdPart_def tblPart_def str_def numberToString.simps)
  have e: "str ''tbl-9'' \<notin> id_part ` set []" by simp
  show ?thesis
    using h handleTableUpdate_stale_id[OF h, of "str ''|x||-|''"]
      handleTableUpdate_stale_id[OF e, of "str ''|x||-|''"]
    by simp
qed

section \<open>Ids\<close>

lemma unat_digit:
  assumes "d < 10"
  shows "unat (of_nat (48 + d) :: jschar) = 48 + d"
proof -
  have "unat (of_nat (48 + d) :: jschar) = (48 + d) mod 2 ^ LENGTH(16)"
    by (simp only: unat_of_nat)
  also have "\<dots> = 48 + d" using assms by simp
  finally show ?thesis .
qed

lemma fromDigits_numberToString: "fromDigits (numberToString n) = n"
proof (induction n rule: numberToString.induct)
  case (1 n)
  show ?case
  proof (cases "n < 10")
    case True
    then show ?thesis
      by (simp add: numberToString.simps[of n] fromDigits_def unat_digit del: of_nat_add)
  next
    case False
    have m: "n mod 10 < 10" by simp
    from False "1.IH" have "fromDigits (numberToString (n div 10)) = n div 10" by simp
    then show ?thesis
      using False by (simp add: numberToString.simps[of n] fromDigits_def unat_digit[OF m] del: of_nat_add)
  qed
qed

lemma numberToString_inj: "numberToString n = numberToString m \<Longrightarrow> n = m"
  by (metis fromDigits_numberToString)

lemma partId_inj: "partId k i = partId k' i' \<Longrightarrow> k = k' \<and> i = i'"
  by (cases k; cases k') (auto simp: partId_def str_def dest: numberToString_inj)

lemma id_mdPart: "id_part (mdPart i t) = partId markdown i"
  by (simp add: mdPart_def partId_def)

lemma id_tblPart: "id_part (tblPart i t) = partId table i"
  by (simp add: tblPart_def partId_def)

lemma length_substring: "a \<le> b \<Longrightarrow> b \<le> length s \<Longrightarrow> length (substring s a b) = b - a"
  by (simp add: substring_le)

lemma segs_ids:
  "segs md li ps \<Longrightarrow> li \<le> length md \<Longrightarrow>
     map id_part ps = map2 partId (map type_part ps) (offsets li ps)"
proof (induction rule: segs.induct)
  case (segs_end li)
  then show ?case by simp
next
  case (segs_tail li)
  then show ?case by (simp add: id_mdPart) (simp add: mdPart_def)
next
  case (segs_table li idx e ps)
  from exec_table_bounds[OF segs_table.hyps(1)] segs_table.hyps(2)
  have b: "li = idx" "idx < e" "e \<le> length md" by auto
  then have "idx + length (substring md idx e) = e" by (simp add: length_substring)
  with segs_table.IH b show ?case
    by (simp add: id_tblPart) (simp add: tblPart_def)
next
  case (segs_gap li idx e ps)
  from exec_table_bounds[OF segs_gap.hyps(1)]
  have b: "li \<le> idx" "idx < e" "e \<le> length md" by auto
  then have "idx + length (substring md idx e) = e" "li + length (substring md li idx) = idx"
    by (simp_all add: length_substring)
  with segs_gap.IH b show ?case
    by (simp add: id_tblPart id_mdPart) (simp add: tblPart_def mdPart_def)
qed

lemma segs_nonempty: "segs md li ps \<Longrightarrow> li \<le> length md \<Longrightarrow> p \<in> set ps \<Longrightarrow> content p \<noteq> []"
proof (induction rule: segs.induct)
  case (segs_end li)
  then show ?case by simp
next
  case (segs_tail li)
  then show ?case by (simp add: mdPart_def)
next
  case (segs_table li idx e ps)
  from exec_table_bounds[OF segs_table.hyps(1)] segs_table.hyps(2)
  have b: "li = idx" "idx < e" "e \<le> length md" by auto
  then have "length (substring md idx e) \<noteq> 0" by (simp add: length_substring)
  then have "content (tblPart idx (substring md idx e)) \<noteq> []" by (simp add: tblPart_def)
  with segs_table b show ?case by auto
next
  case (segs_gap li idx e ps)
  from exec_table_bounds[OF segs_gap.hyps(1)] segs_gap.hyps(2)
  have b: "li < idx" "idx < e" "e \<le> length md" by auto
  then have "length (substring md idx e) \<noteq> 0" "length (substring md li idx) \<noteq> 0"
    by (simp_all add: length_substring)
  then have "content (tblPart idx (substring md idx e)) \<noteq> []"
    "content (mdPart li (substring md li idx)) \<noteq> []" by (simp_all add: tblPart_def mdPart_def)
  with segs_gap b show ?case by auto
qed

lemma offsets_ge: "j \<in> set (offsets i ps) \<Longrightarrow> i \<le> j"
proof (induction ps arbitrary: i)
  case Nil then show ?case by simp
next
  case (Cons p ps)
  then show ?case by fastforce
qed

lemma offsets_distinct: "\<forall>p \<in> set ps. content p \<noteq> [] \<Longrightarrow> distinct (offsets i ps)"
proof (induction ps arbitrary: i)
  case Nil then show ?case by simp
next
  case (Cons p ps)
  then have "0 < length (content p)" by simp
  then have "i \<notin> set (offsets (i + length (content p)) ps)"
    using offsets_ge[of i "i + length (content p)" ps] by auto
  with Cons show ?case by simp
qed

lemma length_offsets: "length (offsets i ps) = length ps"
  by (induction ps arbitrary: i) auto

lemma segs_distinct_ids:
  assumes "segs md li ps" "li \<le> length md"
  shows "distinct (map id_part ps)"
proof -
  have ne: "\<forall>p \<in> set ps. content p \<noteq> []" using segs_nonempty[OF assms] by blast
  have "distinct (zip (map type_part ps) (offsets li ps))"
    by (rule distinct_zipI2) (rule offsets_distinct[OF ne])
  moreover have "inj_on (\<lambda>(k, i). partId k i) (set (zip (map type_part ps) (offsets li ps)))"
    by (rule inj_onI) (auto dest: partId_inj)
  ultimately have "distinct (map2 partId (map type_part ps) (offsets li ps))"
    by (simp add: distinct_map)
  with segs_ids[OF assms] show ?thesis by simp
qed

lemma handleTableUpdate_ids: "map id_part (handleTableUpdate i t ps) = map id_part ps"
  by (induction ps) (auto simp: handleTableUpdate_def)

lemma held_distinct: "held ps \<Longrightarrow> distinct (map id_part ps)"
proof (induction rule: held.induct)
  case held_initial
  then show ?case by simp
next
  case (held_load markdownContent ps)
  show ?case
  proof (cases "markdownContent = []")
    case True
    with held_load show ?thesis by (simp add: load_def)
  next
    case False
    with held_load have p: "parseMarkdown markdownContent = Some ps" by (simp add: load_def)
    obtain ps' where ps': "parseMarkdown markdownContent = Some ps'" "segs markdownContent 0 ps'"
      using parseMarkdown_segs by blast
    with p have "segs markdownContent 0 ps" by simp
    then show ?thesis by (rule segs_distinct_ids) simp
  qed
next
  case (held_update ps tableId updatedMarkdown)
  then show ?case by (simp add: handleTableUpdate_ids)
qed

lemma handleTableUpdate_nth:
  assumes "distinct (map id_part ps)" "k < length ps"
  shows "handleTableUpdate (id_part (ps ! k)) t ps = ps[k := (ps ! k)\<lparr>content := t\<rparr>]"
proof (rule nth_equalityI)
  show "length (handleTableUpdate (id_part (ps ! k)) t ps) = length (ps[k := (ps ! k)\<lparr>content := t\<rparr>])"
    by (simp add: handleTableUpdate_def)
next
  fix j assume "j < length (handleTableUpdate (id_part (ps ! k)) t ps)"
  then have j: "j < length ps" by (simp add: handleTableUpdate_def)
  have "id_part (ps ! j) = id_part (ps ! k) \<longleftrightarrow> j = k"
    using assms j by (metis distinct_conv_nth length_map nth_map)
  then show "handleTableUpdate (id_part (ps ! k)) t ps ! j = ps[k := (ps ! k)\<lparr>content := t\<rparr>] ! j"
    using j assms(2) by (auto simp: handleTableUpdate_def nth_list_update)
qed

lemma map_content_update:
  "k < length ps \<Longrightarrow>
   map content (ps[k := (ps ! k)\<lparr>content := t\<rparr>]) =
   map content (take k ps) @ t # map content (drop (Suc k) ps)"
  by (simp add: map_update upd_conv_take_nth_drop take_map drop_map)

text \<open>
  C8. For every document, the ids of the parts that \<open>parseMarkdown\<close> returns are
  pairwise distinct, and the id of each part is \<open>partId\<close> of its kind and of the offset
  at which its text starts in the document (the parts concatenate to the document, so
  \<open>offsets 0\<close> gives these offsets).
\<close>

theorem parseMarkdown_ids:
  "\<exists>ps. parseMarkdown md = Some ps \<and> concat (map content ps) = md \<and>
        distinct (map id_part ps) \<and>
        map id_part ps = map2 partId (map type_part ps) (offsets 0 ps)"
proof -
  obtain ps where ps: "parseMarkdown md = Some ps" "segs md 0 ps"
    using parseMarkdown_segs by blast
  have "concat (map content ps) = md" using segs_concat[OF ps(2)] by simp
  moreover have "distinct (map id_part ps)" using segs_distinct_ids[OF ps(2)] by simp
  moreover have "map id_part ps = map2 partId (map type_part ps) (offsets 0 ps)"
    using segs_ids[OF ps(2)] by simp
  ultimately show ?thesis using ps(1) by blast
qed

text \<open>
  C10. In every sequence that the component holds, \<open>handleTableUpdate\<close> with the id of
  the part at position \<open>k\<close> replaces the text of that part and nothing else: the part
  keeps its id and kind, every other part and the order stay as they were, and the
  combined text has the new text between the texts of the parts before and after.
\<close>

theorem handleTableUpdate_frame:
  assumes "held ps" "k < length ps"
  shows "handleTableUpdate (id_part (ps ! k)) newText ps = ps[k := (ps ! k)\<lparr>content := newText\<rparr>] \<and>
         combinedMarkdown (handleTableUpdate (id_part (ps ! k)) newText ps) =
           join [LF, LF] (map content (take k ps) @ newText # map content (drop (Suc k) ps))"
proof -
  have u: "handleTableUpdate (id_part (ps ! k)) newText ps = ps[k := (ps ! k)\<lparr>content := newText\<rparr>]"
    using held_distinct[OF assms(1)] assms(2) by (rule handleTableUpdate_nth)
  then show ?thesis
    by (simp add: combinedMarkdown_def map_content_update[OF assms(2)])
qed

theorem handleTableUpdate_frame_witness:
  "held [mdPart 0 (str ''Hello\<newline>\<newline>''),
         tblPart 7 (str ''| a | b |\<newline>|---|---|\<newline>| 1 | 2 |\<newline>''),
         mdPart 37 (str ''\<newline>Bye'')] \<and>
   handleTableUpdate (str ''tbl-7'') (str ''| x |\<newline>|---|\<newline>| 9 |'')
        [mdPart 0 (str ''Hello\<newline>\<newline>''),
         tblPart 7 (str ''| a | b |\<newline>|---|---|\<newline>| 1 | 2 |\<newline>''),
         mdPart 37 (str ''\<newline>Bye'')] =
        [mdPart 0 (str ''Hello\<newline>\<newline>''),
         tblPart 7 (str ''| x |\<newline>|---|\<newline>| 9 |''),
         mdPart 37 (str ''\<newline>Bye'')] \<and>
   combinedMarkdown (handleTableUpdate (str ''tbl-7'') (str ''| x |\<newline>|---|\<newline>| 9 |'')
        [mdPart 0 (str ''Hello\<newline>\<newline>''),
         tblPart 7 (str ''| a | b |\<newline>|---|---|\<newline>| 1 | 2 |\<newline>''),
         mdPart 37 (str ''\<newline>Bye'')]) =
     str ''Hello\<newline>\<newline>\<newline>\<newline>| x |\<newline>|---|\<newline>| 9 |\<newline>\<newline>\<newline>Bye''"
proof -
  let ?ps = "[mdPart 0 (str ''Hello\<newline>\<newline>''),
         tblPart 7 (str ''| a | b |\<newline>|---|---|\<newline>| 1 | 2 |\<newline>''),
         mdPart 37 (str ''\<newline>Bye'')]"
  have "load (str ''Hello\<newline>\<newline>| a | b |\<newline>|---|---|\<newline>| 1 | 2 |\<newline>\<newline>Bye'') = Some ?ps"
    by (simp add: load_def mdPart_def tblPart_def eval_simps)
  then have h: "held ?ps" by (rule held_load)
  have k: "1 < length ?ps" by simp
  have i: "id_part (?ps ! 1) = str ''tbl-7''"
    by (simp add: tblPart_def str_def numberToString.simps)
  show ?thesis
    using h handleTableUpdate_frame[OF h k, of "str ''| x |\<newline>|---|\<newline>| 9 |''"]
    unfolding i
    by (simp add: mdPart_def tblPart_def str_def LF_def numberToString.simps combinedMarkdown_def)
qed

section \<open>The matcher and the language\<close>

lemma ends_Star_set:
  "set (ends (Star a) s) =
     insert s (\<Union>t \<in> {t \<in> set (ends a s). length t < length s}. set (ends (Star a) t))"
  by (subst ends.simps(6)) auto

lemma starLang_ends:
  assumes u: "u \<in> starLang A"
    and s: "s = u @ t"
    and a: "\<And>t'. set (ends a t') = {m. \<exists>w. w \<in> A \<and> t' = w @ m}"
  shows "t \<in> set (ends (Star a) s)"
  using u s
proof (induction arbitrary: s rule: starLang.induct)
  case starLang_empty
  then show ?case by (subst ends_Star_set) simp
next
  case (starLang_step w v)
  show ?case
  proof (cases "w = []")
    case True
    with starLang_step show ?thesis by simp
  next
    case False
    have "v @ t \<in> set (ends a s)" using starLang_step.hyps(1) starLang_step.prems a by auto
    moreover have "length (v @ t) < length s" using False starLang_step.prems by simp
    moreover have "t \<in> set (ends (Star a) (v @ t))" using starLang_step.IH by simp
    ultimately show ?thesis by (subst ends_Star_set) blast
  qed
qed

lemma ends_lang: "set (ends r s) = {t. \<exists>u. u \<in> lang r \<and> s = u @ t}"
proof (induction r arbitrary: s)
  case (Chr c)
  show ?case by (cases s) auto
next
  case Dot
  show ?case by (cases s) auto
next
  case (Seq a b)
  have "set (ends (Seq a b) s) = (\<Union>m \<in> set (ends a s). set (ends b m))" by simp
  also have "\<dots> = {t. \<exists>u. u \<in> lang (Seq a b) \<and> s = u @ t}"
    unfolding Seq.IH by fastforce
  finally show ?case .
next
  case (Alt a b)
  show ?case unfolding ends.simps(4) set_append Alt.IH by auto
next
  case (Opt a)
  show ?case unfolding ends.simps(5) set_append set_filter Opt.IH by auto
next
  case (Star a)
  show ?case
  proof (rule set_eqI, rule iffI)
    fix t assume "t \<in> set (ends (Star a) s)"
    then have "\<exists>u. u \<in> starLang (lang a) \<and> s = u @ t"
    proof (induction "length s" arbitrary: s rule: less_induct)
      case less
      from less.prems consider "t = s"
        | m where "m \<in> set (ends a s)" "length m < length s" "t \<in> set (ends (Star a) m)"
        by (subst (asm) ends_Star_set) auto
      then show ?case
      proof cases
        case 1
        then show ?thesis using starLang_empty by auto
      next
        case 2
        from 2(1) obtain w where w: "w \<in> lang a" "s = w @ m" unfolding Star.IH by blast
        from less.hyps[OF 2(2) 2(3)] obtain v where v: "v \<in> starLang (lang a)" "m = v @ t"
          by blast
        from w(1) v(1) have "w @ v \<in> starLang (lang a)" by (rule starLang_step)
        with w v show ?thesis by auto
      qed
    qed
    then show "t \<in> {t. \<exists>u. u \<in> lang (Star a) \<and> s = u @ t}" by simp
  next
    fix t assume "t \<in> {t. \<exists>u. u \<in> lang (Star a) \<and> s = u @ t}"
    then obtain u where u: "u \<in> starLang (lang a)" "s = u @ t" by auto
    show "t \<in> set (ends (Star a) s)"
      by (rule starLang_ends[OF u]) (rule Star.IH)
  qed
qed

lemma ends_nonempty_iff: "ends r s \<noteq> [] \<longleftrightarrow> (\<exists>u t. u \<in> lang r \<and> s = u @ t)"
proof -
  have "ends r s \<noteq> [] \<longleftrightarrow> set (ends r s) \<noteq> {}" by simp
  also have "\<dots> \<longleftrightarrow> (\<exists>u t. u \<in> lang r \<and> s = u @ t)" unfolding ends_lang by blast
  finally show ?thesis .
qed

lemma starLang_concat: "starLang A = {concat gs | gs. set gs \<subseteq> A}"
proof (rule set_eqI, rule iffI)
  fix u assume "u \<in> starLang A"
  then have "\<exists>gs. u = concat gs \<and> set gs \<subseteq> A"
  proof (induction rule: starLang.induct)
    case starLang_empty
    have "[] = concat [] \<and> set [] \<subseteq> A" by simp
    then show ?case by blast
  next
    case (starLang_step w v)
    then obtain gs where "v = concat gs" "set gs \<subseteq> A" by blast
    with starLang_step.hyps(1) have "w @ v = concat (w # gs) \<and> set (w # gs) \<subseteq> A" by simp
    then show ?case by blast
  qed
  then show "u \<in> {concat gs | gs. set gs \<subseteq> A}" by blast
next
  fix u assume "u \<in> {concat gs | gs. set gs \<subseteq> A}"
  then obtain gs where gs: "u = concat gs" "set gs \<subseteq> A" by blast
  have "set gs \<subseteq> A \<Longrightarrow> concat gs \<in> starLang A"
    by (induction gs) (auto intro: starLang.intros)
  with gs show "u \<in> starLang A" by simp
qed

lemma lang_Plus: "lang (Plus a) = {concat gs | gs. gs \<noteq> [] \<and> set gs \<subseteq> lang a}"
proof (rule set_eqI, rule iffI)
  fix u assume "u \<in> lang (Plus a)"
  then obtain w gs where "u = w @ concat gs" "w \<in> lang a" "set gs \<subseteq> lang a"
    by (auto simp: Plus_def starLang_concat)
  then have "u = concat (w # gs) \<and> w # gs \<noteq> [] \<and> set (w # gs) \<subseteq> lang a" by simp
  then show "u \<in> {concat gs | gs. gs \<noteq> [] \<and> set gs \<subseteq> lang a}" by blast
next
  fix u assume "u \<in> {concat gs | gs. gs \<noteq> [] \<and> set gs \<subseteq> lang a}"
  then obtain gs where gs: "u = concat gs" "gs \<noteq> []" "set gs \<subseteq> lang a" by blast
  then obtain w ws where "gs = w # ws" by (cases gs) auto
  with gs have "u = w @ concat ws" "w \<in> lang a" "set ws \<subseteq> lang a" by auto
  then show "u \<in> lang (Plus a)" by (auto simp: Plus_def starLang_concat)
qed

lemma concat_singletons: "\<forall>g \<in> set gs. \<exists>x. g = [x] \<and> P x \<Longrightarrow> \<forall>c \<in> set (concat gs). P c"
  by (induction gs) auto

lemma lang_Star_Dot: "lang (Star Dot) = {d. \<forall>c \<in> set d. \<not> lineTerminator c}"
proof (rule set_eqI, rule iffI)
  fix d assume "d \<in> lang (Star Dot)"
  then obtain gs where gs: "d = concat gs" "set gs \<subseteq> {[x] | x. \<not> lineTerminator x}"
    by (auto simp: starLang_concat)
  then have "\<forall>g \<in> set gs. \<exists>x. g = [x] \<and> \<not> lineTerminator x" by blast
  from concat_singletons[OF this] gs(1) show "d \<in> {d. \<forall>c \<in> set d. \<not> lineTerminator c}" by simp
next
  fix d assume "d \<in> {d. \<forall>c \<in> set d. \<not> lineTerminator c}"
  then have d: "\<forall>c \<in> set d. \<not> lineTerminator c" by simp
  have "d = concat (map (\<lambda>c. [c]) d)" by (induction d) auto
  moreover have "set (map (\<lambda>c. [c]) d) \<subseteq> {[x] | x. \<not> lineTerminator x}" using d by auto
  ultimately have "\<exists>gs. d = concat gs \<and> set gs \<subseteq> {[x] | x. \<not> lineTerminator x}" by blast
  then show "d \<in> lang (Star Dot)" by (simp add: starLang_concat)
qed

lemma lang_Opt_lineBreak: "lang (Opt lineBreak) = insert [] lineBreaks"
  by (auto simp: lineBreak_def lineBreaks_def)

lemma lang_rowRegex: "lang rowRegex = {u. isRow u}"
  unfolding rowRegex_def lang.simps(3) lang_Star_Dot lang_Opt_lineBreak isRow_def lang.simps(1)
  by (auto; blast)

lemma lang_hyphens: "lang (Plus (Chr hyphen)) = {replicate k hyphen | k. 0 < k}"
proof (rule set_eqI, rule iffI)
  fix u assume "u \<in> lang (Plus (Chr hyphen))"
  then obtain gs where gs: "u = concat gs" "gs \<noteq> []" "set gs \<subseteq> {[hyphen]}"
    by (auto simp: lang_Plus)
  have "set gs \<subseteq> {[hyphen]} \<Longrightarrow> concat gs = replicate (length gs) hyphen"
    by (induction gs) auto
  with gs have "u = replicate (length gs) hyphen \<and> 0 < length gs" by simp
  then show "u \<in> {replicate k hyphen | k. 0 < k}" by blast
next
  fix u assume "u \<in> {replicate k hyphen | k. 0 < k}"
  then obtain k where k: "u = replicate k hyphen" "0 < k" by blast
  have "u = concat (replicate k [hyphen])" unfolding k(1) by (induction k) auto
  moreover have "replicate k [hyphen] \<noteq> []" "set (replicate k [hyphen]) \<subseteq> lang (Chr hyphen)"
    using k(2) by auto
  ultimately show "u \<in> lang (Plus (Chr hyphen))" unfolding lang_Plus by blast
qed

lemma lang_group: "lang (Seq (Plus (Chr hyphen)) (Chr pipe)) = {replicate k hyphen @ [pipe] | k. 0 < k}"
  unfolding lang.simps(3) lang_hyphens by auto

lemma lang_groups:
  "lang (Plus (Seq (Plus (Chr hyphen)) (Chr pipe))) =
     {concat gs | gs. gs \<noteq> [] \<and> set gs \<subseteq> {replicate k hyphen @ [pipe] | k. 0 < k}}"
  unfolding lang_Plus[of "Seq (Plus (Chr hyphen)) (Chr pipe)"] lang_group ..

lemma lang_delimiterRegex_unfold:
  "lang delimiterRegex =
     {[pipe] @ w @ n | w n. w \<in> lang (Plus (Seq (Plus (Chr hyphen)) (Chr pipe))) \<and> n \<in> lang (Opt lineBreak)}"
  unfolding delimiterRegex_def
    lang.simps(3)[of "Chr pipe"] lang.simps(3)[of "Plus (Seq (Plus (Chr hyphen)) (Chr pipe))"] lang.simps(1)
  by blast

lemma lang_delimiterRegex: "lang delimiterRegex = {u. isDelimiterRow u}"
proof (rule set_eqI, rule iffI)
  fix u assume "u \<in> lang delimiterRegex"
  then obtain gs n where "u = pipe # concat gs @ n" "gs \<noteq> []"
    "set gs \<subseteq> {replicate k hyphen @ [pipe] | k. 0 < k}" "n \<in> insert [] lineBreaks"
    unfolding lang_delimiterRegex_unfold lang_groups lang_Opt_lineBreak
    by auto
  then have "u = pipe # concat gs @ n \<and> gs \<noteq> [] \<and>
     (\<forall>g \<in> set gs. \<exists>k. 0 < k \<and> g = replicate k hyphen @ [pipe]) \<and> (n = [] \<or> n \<in> lineBreaks)"
    by auto
  then show "u \<in> {u. isDelimiterRow u}" unfolding isDelimiterRow_def by blast
next
  fix u assume "u \<in> {u. isDelimiterRow u}"
  then obtain gs n where *: "u = pipe # concat gs @ n" "gs \<noteq> []"
    "\<forall>g \<in> set gs. \<exists>k. 0 < k \<and> g = replicate k hyphen @ [pipe]" "n = [] \<or> n \<in> lineBreaks"
    unfolding isDelimiterRow_def by blast
  from *(3) have "set gs \<subseteq> lang (Seq (Plus (Chr hyphen)) (Chr pipe))"
    unfolding lang_group by blast
  with *(2) have "concat gs \<in> lang (Plus (Seq (Plus (Chr hyphen)) (Chr pipe)))"
    unfolding lang_Plus by blast
  moreover have "n \<in> lang (Opt lineBreak)" using *(4) unfolding lang_Opt_lineBreak by blast
  ultimately have "[pipe] @ concat gs @ n \<in> lang delimiterRegex"
    unfolding lang_delimiterRegex_unfold by blast
  with *(1) show "u \<in> lang delimiterRegex" by simp
qed

lemma lang_tableRegex: "lang tableRegex = {u. isTableText u}"
proof (rule set_eqI, rule iffI)
  fix u assume "u \<in> lang tableRegex"
  then obtain h d rows where "u = h @ d @ concat rows" "isRow h" "isDelimiterRow d"
    "set rows \<subseteq> {u. isRow u}"
    unfolding tableRegex_def lang.simps(3) lang.simps(6) lang_rowRegex lang_delimiterRegex starLang_concat
    by auto
  then have "u = h @ d @ concat rows \<and> isRow h \<and> isDelimiterRow d \<and> (\<forall>x \<in> set rows. isRow x)"
    by auto
  then show "u \<in> {u. isTableText u}" unfolding isTableText_def by blast
next
  fix u assume "u \<in> {u. isTableText u}"
  then obtain h d rows where *: "u = h @ d @ concat rows" "isRow h" "isDelimiterRow d"
    "\<forall>x \<in> set rows. isRow x"
    unfolding isTableText_def by blast
  from *(4) have "concat rows \<in> lang (Star rowRegex)"
    unfolding lang.simps(6) lang_rowRegex starLang_concat by blast
  moreover have "d \<in> lang delimiterRegex" using *(3) unfolding lang_delimiterRegex by simp
  moreover have "h \<in> lang rowRegex" using *(2) unfolding lang_rowRegex by simp
  ultimately show "u \<in> lang tableRegex"
    unfolding tableRegex_def lang.simps(3) *(1) by blast
qed

section \<open>Documents without tables\<close>

lemma exec_None_iff:
  "exec r s i = None \<longleftrightarrow> (\<forall>j. i \<le> j \<and> j \<le> length s \<longrightarrow> ends r (drop j s) = [])"
proof
  assume "exec r s i = None"
  then show "\<forall>j. i \<le> j \<and> j \<le> length s \<longrightarrow> ends r (drop j s) = []"
    using exec_None by blast
next
  assume a: "\<forall>j. i \<le> j \<and> j \<le> length s \<longrightarrow> ends r (drop j s) = []"
  show "exec r s i = None"
  proof (cases "exec r s i")
    case None
    then show ?thesis .
  next
    case (Some p)
    obtain idx e where "p = (idx, e)" by (cases p)
    with Some exec_Some[of r s i idx e] a show ?thesis by blast
  qed
qed

lemma match_at_iff:
  "ends tableRegex (drop j md) \<noteq> [] \<longleftrightarrow> (\<exists>v w. drop j md = v @ w \<and> isTableText v)"
  unfolding ends_nonempty_iff lang_tableRegex by auto

lemma containsTable_exec:
  "(\<exists>u v w. md = u @ v @ w \<and> isTableText v) \<longleftrightarrow> exec tableRegex md 0 \<noteq> None"
proof
  assume "\<exists>u v w. md = u @ v @ w \<and> isTableText v"
  then obtain u v w where m: "md = u @ v @ w" "isTableText v" by blast
  then have "drop (length u) md = v @ w" by simp
  with m(2) have "ends tableRegex (drop (length u) md) \<noteq> []" unfolding match_at_iff by blast
  moreover have "length u \<le> length md" using m(1) by simp
  ultimately show "exec tableRegex md 0 \<noteq> None" unfolding exec_None_iff by blast
next
  assume "exec tableRegex md 0 \<noteq> None"
  then obtain j where j: "j \<le> length md" "ends tableRegex (drop j md) \<noteq> []"
    unfolding exec_None_iff by blast
  from j(2) obtain v w where v: "drop j md = v @ w" "isTableText v" unfolding match_at_iff by blast
  have "md = take j md @ drop j md" by simp
  with v have "md = take j md @ v @ w \<and> isTableText v" by simp
  then show "\<exists>u v w. md = u @ v @ w \<and> isTableText v" by blast
qed

text \<open>
  C7, as the claim states it, with a table region in the words of the specification (a
  header line followed by a delimiter line): the one-line document \<open>a|b||-|\<close> has no
  such region, yet the code returns a prose part and a table part, and the combined text
  is not the document.
\<close>

theorem no_region_counterexample:
  "\<not> specContainsTableRegion (str ''a|b||-|'') \<and>
   parseMarkdown (str ''a|b||-|'') = Some [mdPart 0 (str ''a''), tblPart 1 (str ''|b||-|'')] \<and>
   combinedMarkdown [mdPart 0 (str ''a''), tblPart 1 (str ''|b||-|'')] = str ''a\<newline>\<newline>|b||-|'' \<and>
   str ''a\<newline>\<newline>|b||-|'' \<noteq> str ''a|b||-|''"
  by (simp add: eval_simps specContainsTableRegion_def combinedMarkdown_def mdPart_def tblPart_def)

text \<open>
  C7, amended: a table region is a text that \<open>tableRegex\<close> matches, on one line or
  several. A document in which no text has the shape of a table comes back unchanged from
  \<open>combinedMarkdown\<close> after \<open>parseMarkdown\<close>: when it is not empty, it is a single
  prose part that holds the whole document, and when it is empty there is no part and the
  combined text is empty.
\<close>

theorem no_table_roundtrip:
  assumes "\<not> (\<exists>u v w. md = u @ v @ w \<and> isTableText v)"
  shows "parseMarkdown md = Some (if md = [] then [] else [mdPart 0 md]) \<and>
         combinedMarkdown (if md = [] then [] else [mdPart 0 md]) = md"
proof -
  from assms have "\<not> exec tableRegex md 0 \<noteq> None" unfolding containsTable_exec .
  then have "exec tableRegex md 0 = None" by blast
  then have "parseMarkdown md = Some (if md = [] then [] else [mdPart 0 md])"
    by (simp add: parseMarkdown_def parseLoop_unfold[of md 0 "[]"])
  moreover have "combinedMarkdown (if md = [] then [] else [mdPart 0 md]) = md"
    by (simp add: combinedMarkdown_def mdPart_def)
  ultimately show ?thesis by simp
qed

theorem no_table_roundtrip_witness:
  "\<not> (\<exists>u v w. str ''| a | b |\<newline>| 1 | 2 |'' = u @ v @ w \<and> isTableText v) \<and>
   parseMarkdown (str ''| a | b |\<newline>| 1 | 2 |'') = Some [mdPart 0 (str ''| a | b |\<newline>| 1 | 2 |'')] \<and>
   combinedMarkdown [mdPart 0 (str ''| a | b |\<newline>| 1 | 2 |'')] = str ''| a | b |\<newline>| 1 | 2 |'' \<and>
   \<not> (\<exists>u v w. [] = u @ v @ w \<and> isTableText v) \<and>
   parseMarkdown [] = Some [] \<and> combinedMarkdown [] = []"
proof -
  have h: "\<not> (\<exists>u v w. str ''| a | b |\<newline>| 1 | 2 |'' = u @ v @ w \<and> isTableText v)"
    unfolding containsTable_exec by (simp add: eval_simps)
  have e: "\<not> (\<exists>u v w. [] = u @ v @ w \<and> isTableText v)"
    unfolding containsTable_exec by (simp add: eval_simps)
  have n: "str ''| a | b |\<newline>| 1 | 2 |'' \<noteq> []" by (simp add: str_def)
  show ?thesis
    using h e no_table_roundtrip[OF h] no_table_roundtrip[OF e] n by simp
qed

section \<open>The end of a match\<close>

lemma concat_map_if:
  "concat (map (\<lambda>t. if P t then f t else []) xs) = concat (map f (filter P xs))"
  by (induction xs) auto

lemma ends_Star_filter:
  "ends (Star a) s =
     concat (map (ends (Star a)) (filter (\<lambda>t. length t < length s) (ends a s))) @ [s]"
  by (subst ends.simps(6)) (simp only: concat_map_if)

lemma ends_Star_nonempty: "ends (Star a) s \<noteq> []"
  by (subst ends.simps(6)) simp

lemma hd_Star_stuck:
  "t' \<in> set (ends a (hd (ends (Star a) s))) \<Longrightarrow> \<not> length t' < length (hd (ends (Star a) s))"
proof (induction "length s" arbitrary: s rule: less_induct)
  case less
  show ?case
  proof (cases "filter (\<lambda>t. length t < length s) (ends a s)")
    case Nil
    then have h: "hd (ends (Star a) s) = s" by (subst ends_Star_filter) simp
    from Nil have "\<forall>t \<in> set (ends a s). \<not> length t < length s"
      by (simp add: filter_empty_conv)
    with less.prems h show ?thesis by simp
  next
    case (Cons m ms)
    then have "m \<in> set (filter (\<lambda>t. length t < length s) (ends a s))" by simp
    then have m: "length m < length s" by simp
    have "hd (ends (Star a) s) = hd (ends (Star a) m)"
      by (subst ends_Star_filter) (simp add: Cons ends_Star_nonempty)
    with less.hyps[OF m] less.prems show ?thesis by simp
  qed
qed

lemma hd_concat_map: "xs \<noteq> [] \<Longrightarrow> f (hd xs) \<noteq> [] \<Longrightarrow> hd (concat (map f xs)) = hd (f (hd xs))"
  by (cases xs) auto

lemma concat_map_concat:
  "concat (map g (concat (map f xs))) = concat (map (\<lambda>x. concat (map g (f x))) xs)"
  by (induction xs) auto

lemma ends_Seq_assoc: "ends (Seq a (Seq b c)) s = ends (Seq (Seq a b) c) s"
proof -
  have "ends (Seq b c) = (\<lambda>x. concat (map (ends c) (ends b x)))" by (rule ext) simp
  then show ?thesis by (simp add: concat_map_concat)
qed

lemma hd_ends_Seq_Star:
  assumes "ends (Seq a (Star b)) s \<noteq> []"
  shows "hd (ends (Seq a (Star b)) s) = hd (ends (Star b) (hd (ends a s)))"
proof -
  from assms have "ends a s \<noteq> []" by auto
  then show ?thesis by (simp add: hd_concat_map ends_Star_nonempty)
qed

lemma tableRegex_assoc:
  "ends tableRegex s = ends (Seq (Seq rowRegex delimiterRegex) (Star rowRegex)) s"
  unfolding tableRegex_def by (rule ends_Seq_assoc)

lemma table_end_no_row:
  assumes "ends tableRegex s \<noteq> []"
  shows "ends rowRegex (hd (ends tableRegex s)) = []"
proof -
  let ?m = "hd (ends (Seq rowRegex delimiterRegex) s)"
  have h: "hd (ends tableRegex s) = hd (ends (Star rowRegex) ?m)"
    using assms unfolding tableRegex_assoc by (rule hd_ends_Seq_Star)
  have "x \<notin> set (ends rowRegex (hd (ends tableRegex s)))" for x
  proof
    assume x: "x \<in> set (ends rowRegex (hd (ends tableRegex s)))"
    then have "\<not> length x < length (hd (ends tableRegex s))"
      unfolding h by (rule hd_Star_stuck)
    with ends_rowRegex_less[OF x] show False by simp
  qed
  then show ?thesis by (cases "ends rowRegex (hd (ends tableRegex s))") auto
qed

lemma table_end_no_table:
  assumes "ends tableRegex s \<noteq> []"
  shows "ends tableRegex (hd (ends tableRegex s)) = []"
  using table_end_no_row[OF assms] by (simp add: tableRegex_def)

lemma exec_Some_drop:
  assumes "exec r s i = Some (idx, e)"
  shows "drop e s = hd (ends r (drop idx s))"
proof -
  from exec_Some[OF assms] have *: "idx \<le> length s" "ends r (drop idx s) \<noteq> []"
    "e = length s - length (hd (ends r (drop idx s)))" by auto
  from *(2) have "hd (ends r (drop idx s)) \<in> set (ends r (drop idx s))" by simp
  then obtain u where u: "drop idx s = u @ hd (ends r (drop idx s))" using ends_suffix by blast
  have "s = take idx s @ u @ hd (ends r (drop idx s))" using u by (metis append_take_drop_id)
  then have s: "s = (take idx s @ u) @ hd (ends r (drop idx s))" by simp
  have "e = length (take idx s @ u)" unfolding *(3) by (subst s) simp
  then show ?thesis by (subst s) simp
qed

lemma exec_Some_lang:
  assumes "exec r s i = Some (idx, e)"
  shows "substring s idx e \<in> lang r"
proof -
  from exec_Some[OF assms] have *: "idx \<le> length s" "ends r (drop idx s) \<noteq> []"
    "e = length s - length (hd (ends r (drop idx s)))" by auto
  let ?t = "hd (ends r (drop idx s))"
  from *(2) have "?t \<in> set (ends r (drop idx s))" by simp
  then obtain u where u: "u \<in> lang r" "drop idx s = u @ ?t" unfolding ends_lang by blast
  from u(2) have l: "length s - idx = length u + length ?t" by (metis length_append length_drop)
  with * have e: "e = idx + length u" by simp
  have "e \<le> length s" using l e *(1) by simp
  then have "substring s idx e = take (e - idx) (drop idx s)"
    using e by (intro substring_le) simp_all
  also have "\<dots> = take (length u) (u @ ?t)" using e u(2) by simp
  also have "\<dots> = u" by simp

  finally show ?thesis using u(1) by simp
qed

section \<open>Placement of the parts\<close>

lemma tableAt_ends: "tableAt md j \<longleftrightarrow> ends tableRegex (drop j md) \<noteq> []"
  unfolding tableAt_def match_at_iff ..

lemma rowAt_ends: "rowAt md j \<longleftrightarrow> ends rowRegex (drop j md) \<noteq> []"
  unfolding rowAt_def ends_nonempty_iff lang_rowRegex by auto

lemma exec_table_end:
  assumes "exec tableRegex md li = Some (idx, e)"
  shows "\<not> rowAt md e" "\<not> tableAt md e"
proof -
  from exec_Some[OF assms] have m: "ends tableRegex (drop idx md) \<noteq> []" by simp
  show "\<not> rowAt md e"
    unfolding rowAt_ends exec_Some_drop[OF assms] using table_end_no_row[OF m] by simp
  show "\<not> tableAt md e"
    unfolding tableAt_ends exec_Some_drop[OF assms] using table_end_no_table[OF m] by simp
qed

lemma segs_alternate:
  "segs md li ps \<Longrightarrow> li \<le> length md \<Longrightarrow>
     distinct_adj (map type_part ps) \<and>
     (\<not> tableAt md li \<longrightarrow> ps = [] \<or> type_part (hd ps) = markdown)"
proof (induction rule: segs.induct)
  case (segs_end li)
  then show ?case by simp
next
  case (segs_tail li)
  then show ?case by (simp add: mdPart_def)
next
  case (segs_table li idx e ps)
  from exec_table_bounds[OF segs_table.hyps(1)] segs_table.hyps(2)
  have b: "li = idx" "idx < e" "e \<le> length md" by auto
  from exec_Some[OF segs_table.hyps(1)] have t: "tableAt md li"
    unfolding tableAt_ends b(1) by simp
  from segs_table.IH b exec_table_end(2)[OF segs_table.hyps(1)]
  have "distinct_adj (map type_part ps)" "ps = [] \<or> type_part (hd ps) = markdown" by auto
  then have "distinct_adj (map type_part (tblPart idx (substring md idx e) # ps))"
    by (cases ps) (auto simp: tblPart_def)
  with t show ?case by simp
next
  case (segs_gap li idx e ps)
  from exec_table_bounds[OF segs_gap.hyps(1)]
  have b: "li \<le> idx" "idx < e" "e \<le> length md" by auto
  from segs_gap.IH b exec_table_end(2)[OF segs_gap.hyps(1)]
  have "distinct_adj (map type_part ps)" "ps = [] \<or> type_part (hd ps) = markdown" by auto
  then have "distinct_adj (map type_part (mdPart li (substring md li idx) # tblPart idx (substring md idx e) # ps))"
    by (cases ps) (auto simp: tblPart_def mdPart_def)
  then show ?case by (simp add: mdPart_def)
qed

section \<open>Matches and appended text\<close>

lemma concat_map_filter_nil:
  "(\<And>m. m \<in> set xs \<Longrightarrow> \<not> P m \<Longrightarrow> g m = []) \<Longrightarrow>
   concat (map g xs) = concat (map g (filter P xs))"
  by (induction xs) auto

lemma filter_short_nil:
  assumes "length m < length x"
  shows "filter (\<lambda>t. length x \<le> length t) (ends r m) = []"
proof -
  have "\<not> length x \<le> length t" if "t \<in> set (ends r m)" for t
    using ends_length[OF that] assms by simp
  then show ?thesis by (simp add: filter_empty_conv)
qed

lemma ends_local:
  "filter (\<lambda>t. length x \<le> length t) (ends r (s @ x)) = map (\<lambda>t. t @ x) (ends r s)"
proof (induction r s rule: ends.induct)
  case (1 c s)
  show ?case
  proof (cases s)
    case Nil
    then show ?thesis by (cases x) auto
  next
    case (Cons a s')
    have "ends (Chr c) ((a # s') @ x) = (if a = c then [s' @ x] else [])" by simp
    moreover have "ends (Chr c) (a # s') = (if a = c then [s'] else [])" by simp
    ultimately show ?thesis unfolding Cons by (cases "a = c") simp_all
  qed

next
  case (2 s)
  show ?case
  proof (cases s)
    case Nil
    then show ?thesis by (cases x) auto
  next
    case (Cons a s')
    then show ?thesis by simp
  qed
next
  case (3 a b s)
  let ?P = "\<lambda>t. length x \<le> length t"
  have "filter ?P (ends (Seq a b) (s @ x)) =
        concat (map (\<lambda>m. filter ?P (ends b m)) (ends a (s @ x)))"
    by (simp add: filter_concat comp_def)
  also have "\<dots> = concat (map (\<lambda>m. filter ?P (ends b m)) (filter ?P (ends a (s @ x))))"
    by (rule concat_map_filter_nil) (simp add: filter_short_nil)
  also have "\<dots> = concat (map (\<lambda>m. filter ?P (ends b m)) (map (\<lambda>t. t @ x) (ends a s)))"
    by (simp only: "3.IH"(1))
  also have "\<dots> = concat (map (\<lambda>m. filter ?P (ends b (m @ x))) (ends a s))"
    by (simp add: comp_def)
  also have "\<dots> = concat (map (\<lambda>m. map (\<lambda>t. t @ x) (ends b m)) (ends a s))"
    using "3.IH"(2) by (intro arg_cong[where f = concat] map_cong) auto
  also have "\<dots> = map (\<lambda>t. t @ x) (ends (Seq a b) s)"
    by (simp add: map_concat comp_def)
  finally show ?case .
next
  case (4 a b s)
  then show ?case by simp
next
  case (5 a s)
  let ?P = "\<lambda>t. length x \<le> length t"
  have "filter ?P (ends (Opt a) (s @ x)) =
        filter (\<lambda>t. length t < length (s @ x)) (filter ?P (ends a (s @ x))) @ [s @ x]"
    by (simp add: conj_commute)
  also have "\<dots> = map (\<lambda>t. t @ x) (ends (Opt a) s)"
    by (simp only: "5.IH") (simp add: filter_map comp_def)
  finally show ?case .
next
  case (6 a s)
  let ?P = "\<lambda>t. length x \<le> length t"
  let ?Q = "\<lambda>t. length t < length (s @ x)"
  have "filter ?P (ends (Star a) (s @ x)) =
        concat (map (\<lambda>m. filter ?P (ends (Star a) m)) (filter ?Q (ends a (s @ x)))) @ [s @ x]"
    by (subst ends_Star_filter) (simp add: filter_concat comp_def)
  also have "concat (map (\<lambda>m. filter ?P (ends (Star a) m)) (filter ?Q (ends a (s @ x)))) =
        concat (map (\<lambda>m. filter ?P (ends (Star a) m)) (filter ?P (filter ?Q (ends a (s @ x)))))"
    by (rule concat_map_filter_nil) (simp add: filter_short_nil)
  also have "filter ?P (filter ?Q (ends a (s @ x))) = filter ?Q (filter ?P (ends a (s @ x)))"
    by (simp add: conj_commute)
  also have "\<dots> = filter ?Q (map (\<lambda>t. t @ x) (ends a s))"
    by (simp only: "6.IH"(1))
  also have "\<dots> = map (\<lambda>t. t @ x) (filter (\<lambda>t. length t < length s) (ends a s))"
    by (simp add: filter_map comp_def)
  also have "concat (map (\<lambda>m. filter ?P (ends (Star a) m)) \<dots>) =
        concat (map (\<lambda>m. filter ?P (ends (Star a) (m @ x))) (filter (\<lambda>t. length t < length s) (ends a s)))"
    by (simp add: comp_def)
  also have "\<dots> = concat (map (\<lambda>m. map (\<lambda>t. t @ x) (ends (Star a) m)) (filter (\<lambda>t. length t < length s) (ends a s)))"
    using "6.IH"(2) by (intro arg_cong[where f = concat] map_cong) auto
  also have "\<dots> @ [s @ x] = map (\<lambda>t. t @ x) (ends (Star a) s)"
    by (subst (2) ends_Star_filter) (simp add: map_concat comp_def)
  finally show ?case .
qed

section \<open>Tables and line feeds\<close>

lemma lfOk_append:
  "lfOk u \<Longrightarrow> lfOk v \<Longrightarrow> v = [] \<or> hd v = pipe \<Longrightarrow> lfOk (u @ v)"
proof (induction u rule: lfOk.induct)
  case 1
  then show ?case by simp
next
  case (2 x)
  then show ?case by (cases v) auto
next
  case (3 x y zs)
  then show ?case by simp
qed

lemma lfOk_prefix: "lfOk (u @ v) \<Longrightarrow> lfOk u"
proof (induction u rule: lfOk.induct)
  case 1
  then show ?case by simp
next
  case (2 x)
  then show ?case by simp
next
  case (3 x y zs)
  then show ?case by simp
qed

lemma lfOk_no_LF_LF: "\<not> lfOk (w @ LF # LF # y)"
proof (induction w rule: lfOk.induct)
  case 1
  then show ?case by (simp add: LF_def pipe_def)
next
  case (2 x)
  then show ?case by (simp add: LF_def pipe_def)
next
  case (3 x y zs)
  then show ?case by simp
qed

lemma lfOk_no_LF: "LF \<notin> set (butlast u) \<Longrightarrow> lfOk u"
proof (induction u rule: lfOk.induct)
  case 1
  then show ?case by simp
next
  case (2 x)
  then show ?case by simp
next
  case (3 x y zs)
  then have "x \<noteq> LF" by auto
  moreover have "lfOk (y # zs)" using 3 by (cases zs) auto
  ultimately show ?case by simp
qed

lemma lineTerminator_LF: "lineTerminator LF"
  by (simp add: lineTerminator_def LF_def)

lemma isRow_lfOk:
  assumes "isRow u"
  shows "lfOk u"
proof -
  from assms obtain d n where u: "u = pipe # d @ pipe # n" "\<forall>c \<in> set d. \<not> lineTerminator c"
    "n = [] \<or> n \<in> lineBreaks" unfolding isRow_def by blast
  from u(2) have d: "LF \<notin> set d" using lineTerminator_LF by blast
  have "butlast u = pipe # d \<or> butlast u = pipe # d @ [pipe] \<or> butlast u = pipe # d @ [pipe, CR]"
    using u(1,3) by (auto simp: lineBreaks_def butlast_append)
  with d have "LF \<notin> set (butlast u)" by (auto simp: LF_def pipe_def CR_def)
  then show ?thesis by (rule lfOk_no_LF)
qed

lemma groups_no_LF:
  "\<forall>g \<in> set gs. \<exists>k. 0 < k \<and> g = replicate k hyphen @ [pipe] \<Longrightarrow> LF \<notin> set (concat gs)"
  by (induction gs) (auto simp: LF_def pipe_def hyphen_def)

lemma isDelimiterRow_lfOk:
  assumes "isDelimiterRow u"
  shows "lfOk u"
proof -
  from assms obtain gs n where u: "u = pipe # concat gs @ n" "gs \<noteq> []"
    "\<forall>g \<in> set gs. \<exists>k. 0 < k \<and> g = replicate k hyphen @ [pipe]"
    "n = [] \<or> n \<in> lineBreaks" unfolding isDelimiterRow_def by blast
  from groups_no_LF[OF u(3)] have d: "LF \<notin> set (concat gs)" .
  have "set (butlast u) \<subseteq> insert pipe (set (concat gs)) \<union> {CR}"
    using u(1,4) by (auto simp: lineBreaks_def butlast_append dest: in_set_butlastD)
  with d have "LF \<notin> set (butlast u)" by (auto simp: LF_def pipe_def CR_def)
  then show ?thesis by (rule lfOk_no_LF)
qed

lemma isRow_pipe: "isRow u \<Longrightarrow> u \<noteq> [] \<and> hd u = pipe"
  unfolding isRow_def by auto

lemma isDelimiterRow_pipe: "isDelimiterRow u \<Longrightarrow> u \<noteq> [] \<and> hd u = pipe"
  unfolding isDelimiterRow_def by auto

lemma rows_lfOk:
  "\<forall>x \<in> set rows. isRow x \<Longrightarrow> lfOk (concat rows) \<and> (concat rows = [] \<or> hd (concat rows) = pipe)"
proof (induction rows)
  case Nil
  then show ?case by simp
next
  case (Cons r rows)
  then have r: "isRow r" and IH: "lfOk (concat rows)" "concat rows = [] \<or> hd (concat rows) = pipe"
    by auto
  from isRow_pipe[OF r] have p: "r \<noteq> []" "hd r = pipe" by auto
  have "lfOk (r @ concat rows)" using isRow_lfOk[OF r] IH by (rule lfOk_append)
  with p show ?case by simp
qed

lemma isTableText_lfOk:
  assumes "isTableText u"
  shows "lfOk u"
proof -
  from assms obtain h d rows where u: "u = h @ d @ concat rows" "isRow h" "isDelimiterRow d"
    "\<forall>x \<in> set rows. isRow x" unfolding isTableText_def by blast
  from rows_lfOk[OF u(4)] have r: "lfOk (concat rows)" "concat rows = [] \<or> hd (concat rows) = pipe"
    by auto
  have a: "lfOk (d @ concat rows)" using isDelimiterRow_lfOk[OF u(3)] r by (rule lfOk_append)
  have b: "d @ concat rows = [] \<or> hd (d @ concat rows) = pipe"
    using isDelimiterRow_pipe[OF u(3)] by simp
  show ?thesis unfolding u(1) using isRow_lfOk[OF u(2)] a b by (rule lfOk_append)


qed

lemma isTableText_pipe: "isTableText u \<Longrightarrow> u \<noteq> [] \<and> hd u = pipe"
  unfolding isTableText_def using isRow_pipe by fastforce

lemma table_not_across_blank:
  assumes "isTableText v" "v @ h = w @ LF # LF # y"
  shows "length v \<le> Suc (length w)"
proof (rule ccontr)
  assume "\<not> length v \<le> Suc (length w)"
  then have l: "length (w @ [LF, LF]) \<le> length v" by simp
  from assms(2) have "v @ h = (w @ [LF, LF]) @ y" by simp
  with l obtain z where "v = (w @ [LF, LF]) @ z"
    by (metis append_eq_append_conv_if append_take_drop_id)
  then have "v = w @ LF # LF # z" by simp
  with isTableText_lfOk[OF assms(1)] lfOk_no_LF_LF show False by simp
qed

lemma snoc_eq_append:
  assumes "x @ [c] = a @ b" "b \<noteq> []"
  obtains b' where "b = b' @ [c]" "x = a @ b'"
proof -
  from assms(2) obtain b' z where b: "b = b' @ [z]" by (cases b rule: rev_cases) auto
  with assms(1) have "x @ [c] = (a @ b') @ [z]" by simp
  then have "x = a @ b'" "c = z" by auto
  with b that show ?thesis by simp
qed

lemma lineBreak_drop_LF:
  assumes "n = [] \<or> n \<in> lineBreaks" "n = n' @ [LF]"
  shows "n' = [] \<or> n' \<in> lineBreaks"
proof -
  from assms have "n = [LF] \<or> n = [CR, LF]"
    by (auto simp: lineBreaks_def CR_def LF_def)
  with assms(2) have "n' = [] \<or> n' = [CR]" by (cases n') auto
  then show ?thesis by (auto simp: lineBreaks_def)
qed

lemma isRow_drop_LF:
  assumes "isRow (u @ [LF])"
  shows "isRow u"
proof -
  from assms obtain d n where u: "u @ [LF] = pipe # d @ pipe # n" "\<forall>c \<in> set d. \<not> lineTerminator c"
    "n = [] \<or> n \<in> lineBreaks" unfolding isRow_def by blast
  have ne: "n \<noteq> []"
  proof
    assume "n = []"
    with u(1) have "u @ [LF] = (pipe # d) @ [pipe]" by simp
    then have "LF = pipe" by (simp only: append1_eq_conv)
    then show False by (simp add: LF_def pipe_def)
  qed
  from u(1) have eq: "u @ [LF] = (pipe # d @ [pipe]) @ n" by simp
  obtain n' where n': "n = n' @ [LF]" "u = (pipe # d @ [pipe]) @ n'"
    using eq ne by (rule snoc_eq_append)
  from lineBreak_drop_LF[OF u(3) n'(1)] n'(2) u(2) show ?thesis
    unfolding isRow_def by auto
qed

lemma groups_last:
  assumes "gs \<noteq> []" "\<forall>g \<in> set gs. \<exists>k. 0 < k \<and> g = replicate k hyphen @ [pipe]"
  shows "\<exists>z. concat gs = z @ [pipe]"
proof -
  from assms(1) obtain gs' g where gs: "gs = gs' @ [g]" by (cases gs rule: rev_cases) auto
  with assms(2) obtain k where "g = replicate k hyphen @ [pipe]" by auto
  with gs have "concat gs = (concat gs' @ replicate k hyphen) @ [pipe]" by simp
  then show ?thesis by blast
qed

lemma isDelimiterRow_drop_LF:
  assumes "isDelimiterRow (u @ [LF])"
  shows "isDelimiterRow u"
proof -
  from assms obtain gs n where u: "u @ [LF] = pipe # concat gs @ n" "gs \<noteq> []"
    "\<forall>g \<in> set gs. \<exists>k. 0 < k \<and> g = replicate k hyphen @ [pipe]"
    "n = [] \<or> n \<in> lineBreaks" unfolding isDelimiterRow_def by blast
  have ne: "n \<noteq> []"
  proof
    assume n: "n = []"
    from groups_last[OF u(2,3)] obtain z where "concat gs = z @ [pipe]" by blast
    with u(1) n have "u @ [LF] = (pipe # z) @ [pipe]" by simp
    then have "LF = pipe" by (simp only: append1_eq_conv)
    then show False by (simp add: LF_def pipe_def)
  qed
  from u(1) have eq: "u @ [LF] = (pipe # concat gs) @ n" by simp
  obtain n' where n': "n = n' @ [LF]" "u = (pipe # concat gs) @ n'"
    using eq ne by (rule snoc_eq_append)
  from lineBreak_drop_LF[OF u(4) n'(1)] n'(2) u(2,3) show ?thesis
    unfolding isDelimiterRow_def by auto
qed

lemma isTableText_drop_LF:
  assumes "isTableText (v @ [LF])"
  shows "isTableText v"
proof -
  from assms obtain h d rows where v: "v @ [LF] = h @ d @ concat rows" "isRow h" "isDelimiterRow d"
    "\<forall>x \<in> set rows. isRow x" unfolding isTableText_def by blast
  show ?thesis
  proof (cases rows rule: rev_cases)
    case Nil
    with v(1) have "v @ [LF] = h @ d" by simp
    moreover have "d \<noteq> []" using isDelimiterRow_pipe[OF v(3)] by simp
    ultimately obtain d' where d': "d = d' @ [LF]" "v = h @ d'" by (rule snoc_eq_append)
    from v(3) d'(1) have "isDelimiterRow d'" using isDelimiterRow_drop_LF by simp
    with d'(2) v(2) have "v = h @ d' @ concat [] \<and> isRow h \<and> isDelimiterRow d' \<and> (\<forall>x \<in> set []. isRow x)"
      by simp
    then show ?thesis unfolding isTableText_def by blast
  next
    case (snoc rs r)
    with v(4) have r: "isRow r" and rs: "\<forall>x \<in> set rs. isRow x" by auto
    from snoc v(1) have "v @ [LF] = (h @ d @ concat rs) @ r" by simp
    moreover have "r \<noteq> []" using isRow_pipe[OF r] by simp
    ultimately obtain r' where r': "r = r' @ [LF]" "v = (h @ d @ concat rs) @ r'"
      by (rule snoc_eq_append)
    from r r'(1) have "isRow r'" using isRow_drop_LF by simp
    with rs have "\<forall>x \<in> set (rs @ [r']). isRow x" by simp
    moreover have "v = h @ d @ concat (rs @ [r'])" using r'(2) by simp
    ultimately show ?thesis unfolding isTableText_def using v(2,3) by blast
  qed
qed

lemma table_match_iff:
  "ends tableRegex s \<noteq> [] \<longleftrightarrow> (\<exists>v h. s = v @ h \<and> isTableText v)"
  unfolding ends_nonempty_iff lang_tableRegex by auto

lemma no_table_at_LF: "ends tableRegex (LF # s) = []"
proof (rule ccontr)
  assume "ends tableRegex (LF # s) \<noteq> []"
  then obtain v h where v: "LF # s = v @ h" "isTableText v" unfolding table_match_iff by blast
  from isTableText_pipe[OF v(2)] v(1) have "LF = pipe" by (cases v) auto
  then show False by (simp add: LF_def pipe_def)
qed

lemma no_table_at_Nil: "ends tableRegex [] = []"
proof (rule ccontr)
  assume "ends tableRegex [] \<noteq> []"
  then obtain v h where v: "[] = v @ h" "isTableText v" unfolding table_match_iff by blast
  with isTableText_pipe[OF v(2)] show False by simp
qed

lemma gap_kept:
  assumes "ends tableRegex (g @ x) = []"
  shows "ends tableRegex (g @ LF # LF # y) = []"
proof (rule ccontr)
  assume "ends tableRegex (g @ LF # LF # y) \<noteq> []"
  then obtain v h where v: "g @ LF # LF # y = v @ h" "isTableText v"
    unfolding table_match_iff by blast
  from table_not_across_blank[OF v(2) v(1)[symmetric]] have l: "length v \<le> Suc (length g)" .
  have "\<exists>v' h'. g @ x = v' @ h' \<and> isTableText v'"
  proof (cases "length v \<le> length g")
    case True
    with v(1) obtain z where "g = v @ z"
      by (metis append_eq_append_conv_if append_take_drop_id)
    then have "g @ x = v @ (z @ x)" by simp
    with v(2) show ?thesis by blast
  next
    case False
    with l have "length v = length (g @ [LF])" by simp
    moreover from v(1) have "(g @ [LF]) @ (LF # y) = v @ h" by simp
    ultimately have "v = g @ [LF]" by (metis append_eq_append_conv)
    with v(2) have "isTableText g" using isTableText_drop_LF by simp
    then show ?thesis by blast
  qed
  with assms show False unfolding table_match_iff[symmetric] by simp
qed

lemma hd_filter: "xs \<noteq> [] \<Longrightarrow> P (hd xs) \<Longrightarrow> filter P xs \<noteq> [] \<and> hd (filter P xs) = hd xs"
  by (cases xs) auto

lemma first_local:
  assumes "ends r (u @ x) \<noteq> []" "hd (ends r (u @ x)) = x"
  shows "ends r u \<noteq> [] \<and> hd (ends r u) = []"
proof -
  let ?P = "\<lambda>t. length x \<le> length t"
  from assms have "filter ?P (ends r (u @ x)) \<noteq> [] \<and> hd (filter ?P (ends r (u @ x))) = x"
    using hd_filter[of "ends r (u @ x)" ?P] by simp
  then have m: "map (\<lambda>t. t @ x) (ends r u) \<noteq> []" "hd (map (\<lambda>t. t @ x) (ends r u)) = x"
    unfolding ends_local by auto
  from m(1) have n: "ends r u \<noteq> []" by simp
  with m(2) have "hd (ends r u) @ x = x" by (simp add: hd_map)
  with n show ?thesis by simp
qed

lemma table_kept:
  assumes "ends tableRegex (u @ x) \<noteq> []" "hd (ends tableRegex (u @ x)) = x"
  shows "ends tableRegex (u @ LF # LF # y) \<noteq> [] \<and>
         (hd (ends tableRegex (u @ LF # LF # y)) = LF # LF # y \<or>
          hd (ends tableRegex (u @ LF # LF # y)) = LF # y)"
proof -
  let ?x = "LF # LF # y"
  let ?P = "\<lambda>t. length ?x \<le> length t"
  let ?h = "hd (ends tableRegex (u @ ?x))"
  from first_local[OF assms] have n: "ends tableRegex u \<noteq> []" "hd (ends tableRegex u) = []" by auto
  have f: "filter ?P (ends tableRegex (u @ ?x)) = map (\<lambda>t. t @ ?x) (ends tableRegex u)"
    by (rule ends_local)
  with n(1) have ne: "ends tableRegex (u @ ?x) \<noteq> []" by (cases "ends tableRegex (u @ ?x)") auto
  have fh: "hd (filter ?P (ends tableRegex (u @ ?x))) = ?x"
    unfolding f using n by (simp add: hd_map)
  have "?h = ?x \<or> ?h = LF # y"
  proof (cases "?P ?h")
    case True
    with hd_filter[OF ne, of ?P] fh show ?thesis by simp
  next
    case False
    from ne have "?h \<in> set (ends tableRegex (u @ ?x))" by simp
    then obtain v where v: "v \<in> lang tableRegex" "u @ ?x = v @ ?h" unfolding ends_lang by blast
    then have t: "isTableText v" unfolding lang_tableRegex by simp
    from table_not_across_blank[OF t v(2)[symmetric]] have "length v \<le> Suc (length u)" .
    moreover from v(2) have "length u + length ?x = length v + length ?h"
      by (metis length_append)
    ultimately have "length v = length (u @ [LF])" using False by simp
    moreover from v(2) have "(u @ [LF]) @ (LF # y) = v @ ?h" by simp
    ultimately have "?h = LF # y" by (metis append_eq_append_conv)
    then show ?thesis by simp
  qed
  with ne show ?thesis by simp
qed

lemma exec_here:
  assumes "li \<le> length s" "ends r (drop li s) \<noteq> []"
  shows "exec r s li = Some (li, length s - length (hd (ends r (drop li s))))"
  using assms by (cases "ends r (drop li s)") (simp_all add: exec.simps[of r s li])

lemma exec_skip:
  "li' \<le> li \<Longrightarrow> li \<le> length s \<Longrightarrow> \<forall>j. li' \<le> j \<and> j < li \<longrightarrow> ends r (drop j s) = [] \<Longrightarrow>
   exec r s li' = exec r s li"
proof (induction "li - li'" arbitrary: li')
  case 0
  then show ?case by simp
next
  case (Suc n)
  then have l: "li' < li" by simp
  with Suc.prems have "ends r (drop li' s) = []" by simp
  with l Suc.prems(2) have "exec r s li' = exec r s (Suc li')" by (simp add: exec.simps[of r s li'])
  also have "\<dots> = exec r s li"
    using Suc.hyps(2) l Suc.prems by (intro Suc.hyps(1)) auto
  finally show ?case .
qed

section \<open>Segmenting the combined text\<close>

lemma take_drop_split: "a \<le> b \<Longrightarrow> take (b - a) (drop a s) @ drop b s = drop a s"
proof -
  assume "a \<le> b"
  then have "drop b s = drop (b - a) (drop a s)" by simp
  then show ?thesis by (simp only: append_take_drop_id)
qed

lemma tiled_tblPart:
  assumes x: "exec tableRegex md li = Some (idx, e)" and s: "segs md e ps" and t: "tiled ps"
  shows "tiled (tblPart idx (substring md idx e) # ps)"
proof -
  from exec_table_bounds[OF x] have b: "li \<le> idx" "idx < e" "e \<le> length md" by auto
  have c: "concat (map content ps) = drop e md" using segs_concat[OF s b(3)] .
  have u: "substring md idx e @ drop e md = drop idx md"
    using b by (simp add: substring_le take_drop_split)
  from exec_Some[OF x] have m: "ends tableRegex (drop idx md) \<noteq> []" by simp
  from segs_alternate[OF s b(3)] exec_table_end(2)[OF x]
  have a: "ps = [] \<or> type_part (hd ps) = markdown" by simp
  show ?thesis
  proof (rule tiled_table)
    show "type_part (tblPart idx (substring md idx e)) = table" by (simp add: tblPart_def)
    show "ends tableRegex (content (tblPart idx (substring md idx e)) @ concat (map content ps)) \<noteq> []"
      using m by (simp add: tblPart_def c u)
    show "hd (ends tableRegex (content (tblPart idx (substring md idx e)) @ concat (map content ps))) =
          concat (map content ps)"
    proof -
      have "hd (ends tableRegex (substring md idx e @ drop e md)) = drop e md"
        unfolding u using exec_Some_drop[OF x] by simp
      then show ?thesis by (simp add: tblPart_def c)
    qed

    show "ps = [] \<or> type_part (hd ps) = markdown" by (rule a)
    show "tiled ps" by (rule t)
  qed
qed

lemma segs_tiled: "segs md li ps \<Longrightarrow> li \<le> length md \<Longrightarrow> tiled ps"
proof (induction rule: segs.induct)
  case (segs_end li)
  show ?case by (rule tiled_nil)
next
  case (segs_tail li)
  show ?case
  proof (rule tiled_tail)
    show "type_part (mdPart li (drop li md)) = markdown" by (simp add: mdPart_def)
    show "content (mdPart li (drop li md)) \<noteq> []" using segs_tail by (simp add: mdPart_def)
    show "\<forall>j. ends tableRegex (drop j (content (mdPart li (drop li md)))) = []"
    proof
      fix j
      show "ends tableRegex (drop j (content (mdPart li (drop li md)))) = []"
      proof (cases "j + li \<le> length md")
        case True
        with exec_None[OF segs_tail.hyps(1), of "j + li"] show ?thesis
          by (simp add: mdPart_def add.commute)
      next
        case False
        then show ?thesis by (simp add: mdPart_def no_table_at_Nil)
      qed
    qed
  qed
next
  case (segs_table li idx e ps)
  from exec_table_bounds[OF segs_table.hyps(1)] have b: "e \<le> length md" by simp
  from segs_table.IH[OF b] have "tiled ps" .
  with segs_table.hyps(1,3) show ?case by (rule tiled_tblPart)
next
  case (segs_gap li idx e ps)
  from exec_table_bounds[OF segs_gap.hyps(1)] have b: "li \<le> idx" "idx < e" "e \<le> length md" by auto
  from segs_gap.IH[OF b(3)] have "tiled ps" .
  with segs_gap.hyps(1,3) have t: "tiled (tblPart idx (substring md idx e) # ps)" by (rule tiled_tblPart)
  have c: "concat (map content (tblPart idx (substring md idx e) # ps)) = drop idx md"
    using segs_concat[OF segs_gap.hyps(3) b(3)] b
    by (simp add: tblPart_def substring_le take_drop_split)
  have g: "content (mdPart li (substring md li idx)) = take (idx - li) (drop li md)"
    using b by (simp add: mdPart_def substring_le)
  show ?case
  proof (rule tiled_gap)
    show "type_part (mdPart li (substring md li idx)) = markdown" by (simp add: mdPart_def)
    show "content (mdPart li (substring md li idx)) \<noteq> []"
      using b segs_gap.hyps(2) by (simp add: g)
    show "type_part (tblPart idx (substring md idx e)) = table" by (simp add: tblPart_def)
    show "tiled (tblPart idx (substring md idx e) # ps)" by (rule t)
    show "\<forall>j < length (content (mdPart li (substring md li idx))).
            ends tableRegex (drop j (content (mdPart li (substring md li idx))) @
              concat (map content (tblPart idx (substring md idx e) # ps))) = []"
    proof (intro allI impI)
      fix j assume "j < length (content (mdPart li (substring md li idx)))"
      then have j: "j < idx - li" using b by (simp add: g)
      have "drop j (take (idx - li) (drop li md)) @ drop idx md = drop (li + j) md"
      proof -
        have "take (idx - li) (drop li md) @ drop idx md = drop li md"
          using b(1) by (rule take_drop_split)
        then have "drop j (take (idx - li) (drop li md) @ drop idx md) = drop j (drop li md)" by simp
        moreover have "j \<le> length (take (idx - li) (drop li md))" using j b by simp
        ultimately show ?thesis by (simp add: add.commute)
      qed
      moreover have "ends tableRegex (drop (li + j) md) = []"
        using exec_Some[OF segs_gap.hyps(1)] j by simp
      ultimately show "ends tableRegex (drop j (content (mdPart li (substring md li idx))) @
              concat (map content (tblPart idx (substring md idx e) # ps))) = []"
        unfolding c g by simp
    qed
  qed
qed

lemma segs_det: "segs md li ps \<Longrightarrow> segs md li ps' \<Longrightarrow> ps = ps'"
proof (induction arbitrary: ps' rule: segs.induct)
  case (segs_end li)
  from segs_end.prems show ?case by cases (use segs_end.hyps in auto)
next
  case (segs_tail li)
  from segs_tail.prems show ?case by cases (use segs_tail.hyps in auto)
next
  case (segs_table li idx e ps)
  note H = segs_table.hyps and IH = segs_table.IH
  from segs_table.prems show ?case
  proof cases
    case segs_end
    with H(1) show ?thesis by simp
  next
    case segs_tail
    with H(1) show ?thesis by simp
  next
    case (segs_table i2 e2 ps2)
    with H(1) have "i2 = idx" "e2 = e" by simp_all
    with segs_table have "segs md e ps2" by simp
    from IH[OF this] segs_table(1) \<open>i2 = idx\<close> \<open>e2 = e\<close> show ?thesis by simp
  next
    case (segs_gap i2 e2 ps2)
    with H(1,2) show ?thesis by simp
  qed
next
  case (segs_gap li idx e ps)
  note H = segs_gap.hyps and IH = segs_gap.IH
  from segs_gap.prems show ?case
  proof cases
    case segs_end
    with H(1) show ?thesis by simp
  next
    case segs_tail
    with H(1) show ?thesis by simp
  next
    case (segs_table i2 e2 ps2)
    with H(1,2) show ?thesis by simp
  next
    case (segs_gap i2 e2 ps2)
    with H(1) have "i2 = idx" "e2 = e" by simp_all
    with segs_gap have "segs md e ps2" by simp
    from IH[OF this] segs_gap(1) \<open>i2 = idx\<close> \<open>e2 = e\<close> show ?thesis by simp
  qed
qed

lemma segs_parseMarkdown: "segs md 0 ps \<Longrightarrow> parseMarkdown md = Some ps"
  using parseMarkdown_segs[of md] segs_det by blast

lemma segs_first_markdown:
  assumes s: "segs md li (p # rest)" and k: "type_part p = markdown"
    and l: "li' \<le> li" "li \<le> length md"
    and n: "\<forall>j. li' \<le> j \<and> j < li \<longrightarrow> ends tableRegex (drop j md) = []"
  shows "\<exists>p'. segs md li' (p' # rest) \<and> type_part p' = markdown"
  using s
proof cases
  case segs_tail
  then have "exec tableRegex md li' = None" using exec_skip[OF l n] by simp
  moreover have "li' < length md" using segs_tail l by simp
  ultimately have "segs md li' [mdPart li' (drop li' md)]" by (rule segs.segs_tail)
  with segs_tail show ?thesis by (auto simp: mdPart_def)
next
  case (segs_table idx e)
  with k show ?thesis by (simp add: tblPart_def)
next
  case (segs_gap idx e ps)
  then have "exec tableRegex md li' = Some (idx, e)" using exec_skip[OF l n] by simp
  moreover have "li' < idx" using segs_gap l by simp
  ultimately have "segs md li' (mdPart li' (substring md li' idx) # tblPart idx (substring md idx e) # ps)"
    using segs_gap(5) by (rule segs.segs_gap)
  with segs_gap show ?thesis by (auto simp: mdPart_def)
qed

lemma segs_first_table:
  assumes s: "segs md li (p # rest)" and k: "type_part p = table"
  obtains e where "exec tableRegex md li = Some (li, e)" "segs md e rest"
  using s
proof cases
  case segs_tail
  with k show ?thesis by (simp add: mdPart_def)
next
  case (segs_table idx e)
  from exec_table_bounds(1)[OF segs_table(2)] segs_table(3) have "idx = li" by simp
  with segs_table that show ?thesis by simp
next
  case (segs_gap idx e ps)
  with k show ?thesis by (simp add: mdPart_def)
qed

lemma combinedMarkdown_Cons2:
  "combinedMarkdown (p # q # qs) = content p @ LF # LF # combinedMarkdown (q # qs)"
  by (simp add: combinedMarkdown_def)

lemma exec_at_end: "exec tableRegex s (length s) = None"
  unfolding exec_None_iff by (auto simp: no_table_at_Nil)

lemma tiled_resegment:
  "tiled ps \<Longrightarrow>
   \<exists>ps'. segs (pre @ combinedMarkdown ps) (length pre) ps' \<and> map type_part ps' = map type_part ps"
proof (induction arbitrary: pre rule: tiled.induct)
  case tiled_nil
  have "segs (pre @ combinedMarkdown []) (length pre) []"
    by (rule segs_end) (simp_all add: combinedMarkdown_def exec_at_end)
  then show ?case by auto
next
  case (tiled_tail p)
  let ?F = "pre @ content p"
  have "exec tableRegex ?F (length pre) = None"
    unfolding exec_None_iff using tiled_tail.hyps(3) by simp
  moreover have "length pre < length ?F" using tiled_tail.hyps(2) by simp
  ultimately have "segs ?F (length pre) [mdPart (length pre) (drop (length pre) ?F)]"
    by (rule segs_tail)
  then show ?case using tiled_tail.hyps(1) by (auto simp: combinedMarkdown_def mdPart_def)
next
  case (tiled_table p ps)
  let ?u = "content p"
  show ?case
  proof (cases ps)
    case Nil
    let ?F = "pre @ ?u"
    from tiled_table.hyps(2,3) Nil have m: "ends tableRegex ?u \<noteq> []" "hd (ends tableRegex ?u) = []"
      by simp_all
    have "exec tableRegex ?F (length pre) = Some (length pre, length ?F - length (hd (ends tableRegex (drop (length pre) ?F))))"
      by (rule exec_here) (simp_all add: m)
    then have x: "exec tableRegex ?F (length pre) = Some (length pre, length ?F)" by (simp add: m)
    have "segs ?F (length ?F) []" by (rule segs_end) (simp_all add: exec_at_end[of ?F, simplified])

    with x have "segs ?F (length pre) [tblPart (length pre) (substring ?F (length pre) (length ?F))]"
      by (intro segs_table) simp_all
    then show ?thesis using Nil tiled_table.hyps(1) by (auto simp: combinedMarkdown_def tblPart_def)
  next
    case (Cons q qs)
    let ?y = "combinedMarkdown (q # qs)"
    let ?F = "pre @ ?u @ LF # LF # ?y"
    let ?L = "length pre + length ?u"
    from tiled_table.hyps(4) Cons have q: "type_part q = markdown" by simp
    from tiled_table.IH[of "pre @ ?u @ [LF, LF]"] Cons
    obtain ps0 where ps0: "segs ?F (?L + 2) ps0" "map type_part ps0 = map type_part (q # qs)"
      by auto
    from ps0(2) q obtain p0 rest0 where p0: "ps0 = p0 # rest0" "type_part p0 = markdown"
      "map type_part rest0 = map type_part qs" by (cases ps0) auto
    from table_kept[OF tiled_table.hyps(2,3), of ?y]
    have m: "ends tableRegex (?u @ LF # LF # ?y) \<noteq> []"
      and h: "hd (ends tableRegex (?u @ LF # LF # ?y)) = LF # LF # ?y \<or>
              hd (ends tableRegex (?u @ LF # LF # ?y)) = LF # ?y" by auto
    have d: "drop (length pre) ?F = ?u @ LF # LF # ?y" by simp
    have x: "exec tableRegex ?F (length pre) =
             Some (length pre, length ?F - length (hd (ends tableRegex (?u @ LF # LF # ?y))))"
      using exec_here[of "length pre" ?F tableRegex] m unfolding d by simp
    define e where "e = length ?F - length (hd (ends tableRegex (?u @ LF # LF # ?y)))"
    from h have e: "e = ?L \<or> e = Suc ?L" unfolding e_def by auto
    have n: "\<forall>j. e \<le> j \<and> j < ?L + 2 \<longrightarrow> ends tableRegex (drop j ?F) = []"
    proof (intro allI impI)
      fix j assume "e \<le> j \<and> j < ?L + 2"
      with e have "j = ?L \<or> j = Suc ?L" by auto
      moreover have "drop ?L ?F = LF # LF # ?y" by simp
      moreover have "drop (Suc ?L) ?F = LF # ?y"
        by (simp add: Suc_diff_le)
      ultimately show "ends tableRegex (drop j ?F) = []" using no_table_at_LF by auto
    qed
    have "\<exists>p'. segs ?F e (p' # rest0) \<and> type_part p' = markdown"
      using ps0(1)[unfolded p0(1)] p0(2) _ _ n
      by (rule segs_first_markdown) (use e in auto)
    then obtain p' where p': "segs ?F e (p' # rest0)" "type_part p' = markdown" by blast
    have "segs ?F (length pre) (tblPart (length pre) (substring ?F (length pre) e) # p' # rest0)"
      using x[folded e_def] _ p'(1) by (rule segs_table) simp
    moreover have "map type_part (tblPart (length pre) (substring ?F (length pre) e) # p' # rest0) =
        map type_part (p # ps)"
      using Cons q p'(2) p0(3) tiled_table.hyps(1) by (simp add: tblPart_def)
    ultimately show ?thesis unfolding Cons combinedMarkdown_Cons2 by blast
  qed
next
  case (tiled_gap p q ps)
  let ?g = "content p"
  let ?y = "combinedMarkdown (q # ps)"
  let ?F = "pre @ ?g @ LF # LF # ?y"
  let ?L = "length pre + length ?g + 2"
  from tiled_gap.IH[of "pre @ ?g @ [LF, LF]"]
  obtain ps1 where ps1: "segs ?F ?L ps1" "map type_part ps1 = map type_part (q # ps)" by auto
  from ps1(2) tiled_gap.hyps(4) obtain t1 rest1 where t1: "ps1 = t1 # rest1" "type_part t1 = table"
    "map type_part rest1 = map type_part ps" by (cases ps1) auto
  from ps1(1)[unfolded t1(1)] t1(2) obtain e where
    x: "exec tableRegex ?F ?L = Some (?L, e)" and r: "segs ?F e rest1"
    by (rule segs_first_table)
  have n: "\<forall>j. length pre \<le> j \<and> j < ?L \<longrightarrow> ends tableRegex (drop j ?F) = []"
  proof (intro allI impI)
    fix j assume j: "length pre \<le> j \<and> j < ?L"
    show "ends tableRegex (drop j ?F) = []"
    proof (cases "j < length pre + length ?g")
      case True
      with j have "j - length pre < length ?g" by simp
      with tiled_gap.hyps(3)
      have "ends tableRegex (drop (j - length pre) ?g @ concat (map content (q # ps))) = []" by simp
      then have "ends tableRegex (drop (j - length pre) ?g @ LF # LF # ?y) = []" by (rule gap_kept)
      moreover have "drop j ?F = drop (j - length pre) ?g @ LF # LF # ?y" using j True by simp
      ultimately show ?thesis by simp
    next
      case False
      with j have "j = length pre + length ?g \<or> j = Suc (length pre + length ?g)" by auto
      moreover have "drop (length pre + length ?g) ?F = LF # LF # ?y" by simp
      moreover have "drop (Suc (length pre + length ?g)) ?F = LF # ?y"
        by (simp add: Suc_diff_le)
      ultimately show ?thesis using no_table_at_LF by auto
    qed
  qed
  have "exec tableRegex ?F (length pre) = exec tableRegex ?F ?L"
    using _ _ n by (rule exec_skip) simp_all
  with x have "exec tableRegex ?F (length pre) = Some (?L, e)" by simp
  then have "segs ?F (length pre)
      (mdPart (length pre) (substring ?F (length pre) ?L) # tblPart ?L (substring ?F ?L e) # rest1)"
    using _ r by (rule segs_gap) simp
  moreover have "map type_part
      (mdPart (length pre) (substring ?F (length pre) ?L) # tblPart ?L (substring ?F ?L e) # rest1) =
      map type_part (p # q # ps)"
    using tiled_gap.hyps(1,4) t1(3) by (simp add: mdPart_def tblPart_def)
  ultimately show ?case unfolding combinedMarkdown_Cons2 by blast
qed

text \<open>
  C6. For every document, \<open>parseMarkdown\<close> of the combined text of the parts of the
  document (their texts joined by two line feeds) returns parts of the same kinds in the
  same order as \<open>parseMarkdown\<close> of the document.
\<close>

theorem resegment_kinds:
  "\<exists>ps ps'. parseMarkdown md = Some ps \<and> parseMarkdown (combinedMarkdown ps) = Some ps' \<and>
            map type_part ps' = map type_part ps"
proof -
  obtain ps where ps: "parseMarkdown md = Some ps" "segs md 0 ps"
    using parseMarkdown_segs by blast
  from segs_tiled[OF ps(2)] have "tiled ps" by simp
  from tiled_resegment[OF this, of "[]"] obtain ps' where
    ps': "segs (combinedMarkdown ps) 0 ps'" "map type_part ps' = map type_part ps" by auto
  from segs_parseMarkdown[OF ps'(1)] ps'(2) ps(1) show ?thesis by blast
qed

section \<open>The greedy match\<close>

lemma ends_Opt_lineBreak_Nil: "ends (Opt lineBreak) [] = [[]]"
  by (simp add: lineBreak_def)

lemma ends_Opt_lineBreak_plain:
  "c \<noteq> CR \<Longrightarrow> c \<noteq> LF \<Longrightarrow> ends (Opt lineBreak) (c # cs) = [c # cs]"
  by (simp add: lineBreak_def)

lemma ends_Opt_lineBreak_LF: "ends (Opt lineBreak) (LF # cs) = [cs, LF # cs]"
  by (simp add: lineBreak_def CR_def LF_def)

lemma ends_Opt_lineBreak_CR:
  "ends (Opt lineBreak) (CR # cs) =
     (case cs of [] \<Rightarrow> [[], [CR]]
      | c # r \<Rightarrow> if c = LF then [r, cs, CR # cs] else [cs, CR # cs])"
  by (cases cs) (auto simp: lineBreak_def CR_def LF_def)

lemma ends_Opt_lineBreak_sorted:
  "sorted_wrt shorter (ends (Opt lineBreak) s) \<and> (\<forall>t \<in> set (ends (Opt lineBreak) s). length t \<le> length s)"
proof (cases s)
  case Nil
  then show ?thesis by (simp add: ends_Opt_lineBreak_Nil)
next
  case (Cons c cs)
  consider "c = CR" | "c = LF" | "c \<noteq> CR" "c \<noteq> LF" by blast
  then show ?thesis
  proof cases
    case 1
    show ?thesis unfolding Cons 1 ends_Opt_lineBreak_CR by (cases cs) auto
  next
    case 2
    show ?thesis unfolding Cons 2 ends_Opt_lineBreak_LF by simp
  next
    case 3
    show ?thesis unfolding Cons ends_Opt_lineBreak_plain[OF 3] by simp
  qed
qed

lemma ends_Opt_lineBreak_single:
  "s = [] \<or> (hd s \<noteq> CR \<and> hd s \<noteq> LF) \<Longrightarrow> ends (Opt lineBreak) s = [s]"
proof (cases s)
  case Nil
  then show ?thesis by (simp only: ends_Opt_lineBreak_Nil)
next
  case (Cons c cs)
  assume "s = [] \<or> (hd s \<noteq> CR \<and> hd s \<noteq> LF)"
  with Cons have "c \<noteq> CR" "c \<noteq> LF" by auto
  then show ?thesis unfolding Cons by (rule ends_Opt_lineBreak_plain)
qed

lemma ends_Star_Dot_Nil: "ends (Star Dot) [] = [[]]"
  by (subst ends.simps(6)) simp

lemma ends_Star_Dot_Cons:
  "ends (Star Dot) (c # cs) = (if lineTerminator c then [] else ends (Star Dot) cs) @ [c # cs]"
  by (subst ends.simps(6)) simp

lemma ends_pipe_break_Cons:
  "ends (Seq (Chr pipe) (Opt lineBreak)) (c # cs) = (if c = pipe then ends (Opt lineBreak) cs else [])"
  by (simp del: ends.simps(5))

lemma ends_pipe_break_Nil: "ends (Seq (Chr pipe) (Opt lineBreak)) [] = []"
  by simp

lemma ends_rowTail_Nil: "ends (Seq (Star Dot) (Seq (Chr pipe) (Opt lineBreak))) [] = []"
  unfolding ends.simps(3)[of "Star Dot"] ends_Star_Dot_Nil by (simp del: ends.simps add: ends_pipe_break_Nil)

lemma ends_rowTail_Cons:
  "ends (Seq (Star Dot) (Seq (Chr pipe) (Opt lineBreak))) (c # cs) =
     (if lineTerminator c then [] else ends (Seq (Star Dot) (Seq (Chr pipe) (Opt lineBreak))) cs) @
     (if c = pipe then ends (Opt lineBreak) cs else [])"
  unfolding ends.simps(3)[of "Star Dot"] ends_Star_Dot_Cons
  by (simp del: ends.simps add: ends_pipe_break_Cons)

lemma lineTerminator_CR: "lineTerminator CR"
  by (simp add: lineTerminator_def CR_def)

lemma ends_rowTail_sorted:
  "sorted_wrt shorter (ends (Seq (Star Dot) (Seq (Chr pipe) (Opt lineBreak))) s) \<and>
   (\<forall>t \<in> set (ends (Seq (Star Dot) (Seq (Chr pipe) (Opt lineBreak))) s). length t < length s)"
proof (induction s)
  case Nil
  show ?case by (simp only: ends_rowTail_Nil) simp
next
  case (Cons c cs)
  let ?X = "Seq (Star Dot) (Seq (Chr pipe) (Opt lineBreak))"
  let ?A = "if lineTerminator c then [] else ends ?X cs"
  let ?B = "if c = pipe then ends (Opt lineBreak) cs else []"
  have A: "sorted_wrt shorter ?A" "\<forall>t \<in> set ?A. length t < length cs"
    using Cons.IH by (simp_all del: ends.simps)
  have B: "sorted_wrt shorter ?B" "\<forall>t \<in> set ?B. length t \<le> length cs"
    using ends_Opt_lineBreak_sorted[of cs] by (simp_all del: ends.simps)
  have cross: "\<forall>a \<in> set ?A. \<forall>b \<in> set ?B. shorter a b"
  proof (cases "cs = [] \<or> (hd cs \<noteq> CR \<and> hd cs \<noteq> LF)")
    case True
    then have "ends (Opt lineBreak) cs = [cs]" by (rule ends_Opt_lineBreak_single)
    then have "set ?B \<subseteq> {cs}" by (auto simp del: ends.simps)
    with A(2) show ?thesis by blast
  next
    case False
    then obtain k r where cs: "cs = k # r" "k = CR \<or> k = LF" by (cases cs) auto
    then have "lineTerminator k" "k \<noteq> pipe"
      using lineTerminator_CR lineTerminator_LF by (auto simp: CR_def LF_def pipe_def)
    then have "ends ?X (k # r) = []" by (simp only: ends_rowTail_Cons if_True if_False append_Nil)
    then have "?A = []" unfolding cs(1) by (simp del: ends.simps)
    then show ?thesis by (simp del: ends.simps)
  qed
  have 1: "sorted_wrt shorter (?A @ ?B)"
    using A(1) B(1) cross by (simp only: sorted_wrt_append)
  have 2: "\<forall>t \<in> set (?A @ ?B). length t < length (c # cs)"
  proof
    fix t assume "t \<in> set (?A @ ?B)"
    then have "t \<in> set ?A \<or> t \<in> set ?B" by (simp only: set_append Un_iff)
    with A(2) B(2) have "length t \<le> length cs" by fastforce
    then show "length t < length (c # cs)" by simp
  qed
  show ?case unfolding ends_rowTail_Cons using 1 2 by (rule conjI)
qed

lemma ends_rowRegex_sorted: "sorted_wrt shorter (ends rowRegex s)"
proof (cases s)
  case Nil
  then show ?thesis by (simp add: rowRegex_def)
next
  case (Cons c cs)
  have "ends rowRegex (c # cs) =
      (if c = pipe then ends (Seq (Star Dot) (Seq (Chr pipe) (Opt lineBreak))) cs else [])"
    unfolding rowRegex_def by (simp del: ends.simps(3,5) add: ends.simps(3)[of "Chr pipe"])
  then show ?thesis unfolding Cons using ends_rowTail_sorted[of cs] by simp
qed

lemma ends_Star_hyphen_Nil: "ends (Star (Chr hyphen)) [] = [[]]"
  by (subst ends.simps(6)) simp

lemma ends_Star_hyphen_Cons:
  "ends (Star (Chr hyphen)) (c # cs) = (if c = hyphen then ends (Star (Chr hyphen)) cs else []) @ [c # cs]"
  by (subst ends.simps(6)) simp

lemma ends_hyphens_pipe_Nil: "ends (Seq (Star (Chr hyphen)) (Chr pipe)) [] = []"
  unfolding ends.simps(3)[of "Star (Chr hyphen)"] ends_Star_hyphen_Nil by simp

lemma ends_hyphens_pipe_Cons:
  "ends (Seq (Star (Chr hyphen)) (Chr pipe)) (c # cs) =
     (if c = hyphen then ends (Seq (Star (Chr hyphen)) (Chr pipe)) cs else []) @
     (if c = pipe then [cs] else [])"
  unfolding ends.simps(3)[of "Star (Chr hyphen)"] ends_Star_hyphen_Cons by simp

lemma ends_hyphens_pipe_one:
  "length (ends (Seq (Star (Chr hyphen)) (Chr pipe)) s) \<le> 1 \<and>
   (\<forall>t \<in> set (ends (Seq (Star (Chr hyphen)) (Chr pipe)) s). length t < length s)"
proof (induction s)
  case Nil
  show ?case by (simp only: ends_hyphens_pipe_Nil) simp
next
  case (Cons c cs)
  show ?case
  proof (cases "c = hyphen")
    case True
    then have "c \<noteq> pipe" by (simp add: hyphen_def pipe_def)
    with True have "ends (Seq (Star (Chr hyphen)) (Chr pipe)) (c # cs) =
        ends (Seq (Star (Chr hyphen)) (Chr pipe)) cs"
      by (simp only: ends_hyphens_pipe_Cons if_True if_False append_Nil2 refl simp_thms)
    with Cons.IH show ?thesis by (auto simp del: ends.simps)
  next
    case False
    then have "ends (Seq (Star (Chr hyphen)) (Chr pipe)) (c # cs) = (if c = pipe then [cs] else [])"
      by (simp only: ends_hyphens_pipe_Cons if_False append_Nil)
    then show ?thesis by (auto simp del: ends.simps)
  qed
qed

lemma ends_group:
  "ends (Seq (Plus (Chr hyphen)) (Chr pipe)) s =
     (case s of [] \<Rightarrow> [] | c # cs \<Rightarrow> if c = hyphen then ends (Seq (Star (Chr hyphen)) (Chr pipe)) cs else [])"
proof -
  have "ends (Seq (Plus (Chr hyphen)) (Chr pipe)) s =
        ends (Seq (Chr hyphen) (Seq (Star (Chr hyphen)) (Chr pipe))) s"
    unfolding Plus_def by (rule ends_Seq_assoc[symmetric])
  also have "\<dots> = (case s of [] \<Rightarrow> [] | c # cs \<Rightarrow>
      if c = hyphen then ends (Seq (Star (Chr hyphen)) (Chr pipe)) cs else [])"
    by (cases s) (simp_all del: ends.simps(3) add: ends.simps(3)[of "Chr hyphen"])
  finally show ?thesis .
qed

lemma ends_group_one:
  "length (ends (Seq (Plus (Chr hyphen)) (Chr pipe)) s) \<le> 1 \<and>
   (\<forall>t \<in> set (ends (Seq (Plus (Chr hyphen)) (Chr pipe)) s). length t < length s) \<and>
   (ends (Seq (Plus (Chr hyphen)) (Chr pipe)) s \<noteq> [] \<longrightarrow> s \<noteq> [] \<and> hd s = hyphen)"
proof (cases s)
  case Nil
  then show ?thesis by (simp only: ends_group) simp
next
  case (Cons c cs)
  show ?thesis
  proof (cases "c = hyphen")
    case True
    with Cons have "ends (Seq (Plus (Chr hyphen)) (Chr pipe)) s =
        ends (Seq (Star (Chr hyphen)) (Chr pipe)) cs" by (simp only: ends_group) simp
    with ends_hyphens_pipe_one[of cs] Cons True show ?thesis by (auto simp del: ends.simps)
  next
    case False
    with Cons have "ends (Seq (Plus (Chr hyphen)) (Chr pipe)) s = []" by (simp only: ends_group) simp
    then show ?thesis by (simp del: ends.simps)
  qed
qed

lemma list_le_one: "length xs \<le> 1 \<Longrightarrow> xs = [] \<or> (\<exists>t. xs = [t])"
  by (cases xs) auto

lemma ends_groups_break_sorted:
  "sorted_wrt shorter (ends (Seq (Star (Seq (Plus (Chr hyphen)) (Chr pipe))) (Opt lineBreak)) s) \<and>
   (\<forall>t \<in> set (ends (Seq (Star (Seq (Plus (Chr hyphen)) (Chr pipe))) (Opt lineBreak)) s).
      length t \<le> length s)"
proof (induction "length s" arbitrary: s rule: less_induct)
  case less
  let ?G = "Seq (Plus (Chr hyphen)) (Chr pipe)"
  let ?Z = "Seq (Star ?G) (Opt lineBreak)"
  from ends_group_one[of s] have one: "length (ends ?G s) \<le> 1"
    and sh: "\<forall>t \<in> set (ends ?G s). length t < length s"
    and hy: "ends ?G s \<noteq> [] \<longrightarrow> s \<noteq> [] \<and> hd s = hyphen" by blast+
  from sh have f: "filter (\<lambda>t. length t < length s) (ends ?G s) = ends ?G s"
    by (simp del: ends.simps)
  have st: "ends (Star ?G) s = concat (map (ends (Star ?G)) (ends ?G s)) @ [s]"
    by (subst ends_Star_filter) (simp only: f)
  from list_le_one[OF one] show ?case
  proof
    assume e: "ends ?G s = []"
    have "ends (Star ?G) s = [s]" unfolding st e by (simp del: ends.simps)
    then have "ends ?Z s = ends (Opt lineBreak) s"
      unfolding ends.simps(3)[of "Star ?G"] by (simp del: ends.simps)
    then show ?thesis using ends_Opt_lineBreak_sorted[of s] by (simp del: ends.simps)
  next
    assume "\<exists>t. ends ?G s = [t]"
    then obtain t where e: "ends ?G s = [t]" by blast
    with sh have l: "length t < length s" by (simp del: ends.simps)
    from e hy have "s \<noteq> [] \<and> hd s = hyphen" by (simp del: ends.simps)
    then have "s = [] \<or> (hd s \<noteq> CR \<and> hd s \<noteq> LF)" by (simp add: hyphen_def CR_def LF_def)
    then have b: "ends (Opt lineBreak) s = [s]" by (rule ends_Opt_lineBreak_single)
    have "ends (Star ?G) s = ends (Star ?G) t @ [s]" unfolding st e by (simp del: ends.simps)
    then have z: "ends ?Z s = ends ?Z t @ [s]"
      unfolding ends.simps(3)[of "Star ?G"] by (simp del: ends.simps add: b)
    from less.hyps[OF l] have IH: "sorted_wrt shorter (ends ?Z t)"
      "\<forall>x \<in> set (ends ?Z t). length x \<le> length t" by blast+
    from IH(2) l have c: "\<forall>x \<in> set (ends ?Z t). length x < length s" by fastforce
    have 1: "sorted_wrt shorter (ends ?Z t @ [s])"
      using IH(1) c by (simp only: sorted_wrt_append) simp
    have 2: "\<forall>x \<in> set (ends ?Z t @ [s]). length x \<le> length s" using c by fastforce
    show ?thesis unfolding z using 1 2 by (rule conjI)
  qed
qed

lemma ends_delimiterTail:
  "ends (Seq (Plus (Seq (Plus (Chr hyphen)) (Chr pipe))) (Opt lineBreak)) s =
     concat (map (ends (Seq (Star (Seq (Plus (Chr hyphen)) (Chr pipe))) (Opt lineBreak)))
       (ends (Seq (Plus (Chr hyphen)) (Chr pipe)) s))"
proof -
  let ?G = "Seq (Plus (Chr hyphen)) (Chr pipe)"
  have "ends (Seq (Plus ?G) (Opt lineBreak)) s = ends (Seq ?G (Seq (Star ?G) (Opt lineBreak))) s"
    unfolding Plus_def[of ?G] by (rule ends_Seq_assoc[symmetric])
  then show ?thesis by (simp only: ends.simps(3)[of ?G])
qed

lemma ends_delimiterTail_sorted:
  "sorted_wrt shorter (ends (Seq (Plus (Seq (Plus (Chr hyphen)) (Chr pipe))) (Opt lineBreak)) s)"
proof -
  let ?G = "Seq (Plus (Chr hyphen)) (Chr pipe)"
  from list_le_one[of "ends ?G s"] ends_group_one[of s]
  have "ends ?G s = [] \<or> (\<exists>t. ends ?G s = [t])" by blast
  then show ?thesis
  proof
    assume "ends ?G s = []"
    then show ?thesis unfolding ends_delimiterTail by (simp del: ends.simps)
  next
    assume "\<exists>t. ends ?G s = [t]"
    then obtain t where "ends ?G s = [t]" by blast
    then show ?thesis unfolding ends_delimiterTail
      using ends_groups_break_sorted[of t] by (simp del: ends.simps)
  qed
qed

lemma ends_delimiterRegex_sorted: "sorted_wrt shorter (ends delimiterRegex s)"
proof (cases s)
  case Nil
  then show ?thesis by (simp add: delimiterRegex_def)
next
  case (Cons c cs)
  have "ends delimiterRegex (c # cs) =
      (if c = pipe then ends (Seq (Plus (Seq (Plus (Chr hyphen)) (Chr pipe))) (Opt lineBreak)) cs else [])"
    unfolding delimiterRegex_def by (simp del: ends.simps(3,5) add: ends.simps(3)[of "Chr pipe"])
  then show ?thesis unfolding Cons using ends_delimiterTail_sorted[of cs] by (simp del: ends.simps)
qed

lemma sorted_hd_shortest:
  "sorted_wrt shorter xs \<Longrightarrow> t \<in> set xs \<Longrightarrow> length (hd xs) \<le> length t"
  by (cases xs) (auto simp: less_imp_le)

lemma hd_concat_map_first:
  "concat (map f xs) \<noteq> [] \<Longrightarrow>
   \<exists>ys m zs. xs = ys @ m # zs \<and> (\<forall>y \<in> set ys. f y = []) \<and> f m \<noteq> [] \<and>
             hd (concat (map f xs)) = hd (f m)"
proof (induction xs)
  case Nil
  then show ?case by simp
next
  case (Cons a xs)
  show ?case
  proof (cases "f a = []")
    case True
    with Cons.prems have "concat (map f xs) \<noteq> []" by simp
    from Cons.IH[OF this] obtain ys m zs where *: "xs = ys @ m # zs" "\<forall>y \<in> set ys. f y = []"
      "f m \<noteq> []" "hd (concat (map f xs)) = hd (f m)" by blast
    from * True have "a # xs = (a # ys) @ m # zs \<and> (\<forall>y \<in> set (a # ys). f y = []) \<and> f m \<noteq> [] \<and>
        hd (concat (map f (a # xs))) = hd (f m)" by simp
    then show ?thesis by blast
  next
    case False
    then have "a # xs = [] @ a # xs \<and> (\<forall>y \<in> set []. f y = []) \<and> f a \<noteq> [] \<and>
        hd (concat (map f (a # xs))) = hd (f a)" by simp
    then show ?thesis by blast
  qed
qed

lemma first_match_longest:
  assumes l: "set (ends r s) = {t. \<exists>u. P u \<and> s = u @ t}"
    and o: "sorted_wrt shorter (ends r s)"
    and n: "ends r s \<noteq> []"
  shows "\<exists>x. s = x @ hd (ends r s) \<and> longestPrefix P s x"
proof -
  from n have "hd (ends r s) \<in> set (ends r s)" by simp
  then obtain x where x: "P x" "s = x @ hd (ends r s)" unfolding l by blast
  have "length y \<le> length x" if "P y \<and> s = y @ t" for y t
  proof -
    from that have "t \<in> set (ends r s)" unfolding l by blast
    from sorted_hd_shortest[OF o this] have "length (hd (ends r s)) \<le> length t" .
    moreover have "length x + length (hd (ends r s)) = length y + length t"
      using x(2) that by (metis length_append)
    ultimately show ?thesis by simp
  qed
  with x show ?thesis unfolding longestPrefix_def by blast
qed

lemma ends_rowRegex_set: "set (ends rowRegex s) = {t. \<exists>u. isRow u \<and> s = u @ t}"
  unfolding ends_lang lang_rowRegex by simp

lemma ends_delimiterRegex_set: "set (ends delimiterRegex s) = {t. \<exists>u. isDelimiterRow u \<and> s = u @ t}"
  unfolding ends_lang lang_delimiterRegex by simp

lemma row_longest:
  "ends rowRegex s \<noteq> [] \<Longrightarrow> \<exists>x. s = x @ hd (ends rowRegex s) \<and> longestPrefix isRow s x"
  using ends_rowRegex_set ends_rowRegex_sorted by (rule first_match_longest)

lemma delimiter_longest:
  "ends delimiterRegex s \<noteq> [] \<Longrightarrow>
   \<exists>x. s = x @ hd (ends delimiterRegex s) \<and> longestPrefix isDelimiterRow s x"
  using ends_delimiterRegex_set ends_delimiterRegex_sorted by (rule first_match_longest)

lemma rows_greedy:
  "\<exists>r. m = r @ hd (ends (Star rowRegex) m) \<and> greedyRows m r"
proof (induction "length m" arbitrary: m rule: less_induct)
  case less
  have f: "filter (\<lambda>t. length t < length m) (ends rowRegex m) = ends rowRegex m"
    using ends_rowRegex_less by (simp add: filter_id_conv)
  have st: "ends (Star rowRegex) m = concat (map (ends (Star rowRegex)) (ends rowRegex m)) @ [m]"
    by (subst ends_Star_filter) (simp only: f)
  show ?case
  proof (cases "ends rowRegex m")
    case Nil
    then have "hd (ends (Star rowRegex) m) = m" unfolding st by simp
    moreover have "greedyRows m []"
      by (rule greedyRows_none) (simp add: rowAt_ends Nil)
    ultimately show ?thesis by simp
  next
    case (Cons m1 rest)
    then have n: "ends rowRegex m \<noteq> []" and h: "hd (ends rowRegex m) = m1" by simp_all
    from row_longest[OF n] h obtain x where x: "m = x @ m1" "longestPrefix isRow m x" by auto
    have "m1 \<in> set (ends rowRegex m)" using Cons by simp
    from ends_rowRegex_less[OF this] have l: "length m1 < length m" .
    from less.hyps[OF l] obtain r where r: "m1 = r @ hd (ends (Star rowRegex) m1)" "greedyRows m1 r"
      by blast
    have hd: "hd (ends (Star rowRegex) m) = hd (ends (Star rowRegex) m1)"
      unfolding st Cons by (simp add: ends_Star_nonempty)
    have "drop (length x) m = m1" using x(1) by simp
    with r(2) have "greedyRows (drop (length x) m) r" by simp
    with x(2) have "greedyRows m (x @ r)" by (rule greedyRows_more)
    moreover have "m = (x @ r) @ hd (ends (Star rowRegex) m)" unfolding hd using x(1) r(1) by simp
    ultimately show ?thesis by blast
  qed
qed

lemma ends_Seq_Star_Nil_iff: "ends (Seq a (Star b)) s = [] \<longleftrightarrow> ends a s = []"
  by (auto simp: ends_Star_nonempty)

lemma table_greedy:
  assumes "ends tableRegex s \<noteq> []"
  shows "\<exists>u. s = u @ hd (ends tableRegex s) \<and> greedyTable s u"
proof -
  let ?f = "ends (Seq delimiterRegex (Star rowRegex))"
  have e: "ends tableRegex s = concat (map ?f (ends rowRegex s))" by (simp add: tableRegex_def)
  from hd_concat_map_first[OF assms[unfolded e]] obtain ys m zs where
    xs: "ends rowRegex s = ys @ m # zs" and ys: "\<forall>y \<in> set ys. ?f y = []" and m: "?f m \<noteq> []"
    and hd: "hd (ends tableRegex s) = hd (?f m)" unfolding e by blast
  from m have dm: "ends delimiterRegex m \<noteq> []" unfolding ends_Seq_Star_Nil_iff .
  from hd hd_ends_Seq_Star[OF m]
  have hd2: "hd (ends tableRegex s) = hd (ends (Star rowRegex) (hd (ends delimiterRegex m)))" by simp
  have "m \<in> set (ends rowRegex s)" unfolding xs by simp
  then obtain h where h: "isRow h" "s = h @ m" unfolding ends_rowRegex_set by blast
  from delimiter_longest[OF dm] obtain d where
    d: "m = d @ hd (ends delimiterRegex m)" "longestPrefix isDelimiterRow m d" by blast
  from rows_greedy[of "hd (ends delimiterRegex m)"] obtain r where
    r: "hd (ends delimiterRegex m) = r @ hd (ends tableRegex s)" "greedyRows (hd (ends delimiterRegex m)) r"
    unfolding hd2 by blast
  have dh: "drop (length h) s = m" using h(2) by simp
  have dd: "drop (length h + length d) s = hd (ends delimiterRegex m)"
  proof -
    have "s = (h @ d) @ hd (ends delimiterRegex m)" using h(2) d(1) by simp
    then have "drop (length (h @ d)) s = hd (ends delimiterRegex m)" by (metis append_eq_conv_conj)
    then show ?thesis by simp
  qed
  have da: "delimiterAfter s h"
    unfolding delimiterAfter_def dh using d unfolding longestPrefix_def by blast
  have lh: "longestPrefix (\<lambda>x. isRow x \<and> delimiterAfter s x) s h"
    unfolding longestPrefix_def
  proof (intro conjI allI impI)
    show "isRow h" by (rule h(1))
    show "delimiterAfter s h" by (rule da)
    show "\<exists>t. s = h @ t" using h(2) by blast
  next
    fix y t assume a: "(isRow y \<and> delimiterAfter s y) \<and> s = y @ t"
    then have t: "t \<in> set (ends rowRegex s)" unfolding ends_rowRegex_set by blast
    from a have "drop (length y) s = t" by simp
    with a have "\<exists>d' t'. t = d' @ t' \<and> isDelimiterRow d'" unfolding delimiterAfter_def by simp
    then have "set (ends delimiterRegex t) \<noteq> {}" unfolding ends_delimiterRegex_set by blast
    then have "?f t \<noteq> []" unfolding ends_Seq_Star_Nil_iff by simp
    with ys have "t \<notin> set ys" by blast
    with t have "t = m \<or> t \<in> set zs" unfolding xs by simp
    moreover have "\<forall>z \<in> set zs. length m < length z"
      using ends_rowRegex_sorted[of s] unfolding xs by (simp add: sorted_wrt_append)
    ultimately have "length m \<le> length t" by auto
    moreover have "length h + length m = length y + length t" using h(2) a by (metis length_append)
    ultimately show "length y \<le> length h" by simp
  qed
  have "h @ d @ r = h @ d @ r \<and> longestPrefix (\<lambda>x. isRow x \<and> delimiterAfter s x) s h \<and>
      longestPrefix isDelimiterRow (drop (length h) s) d \<and>
      greedyRows (drop (length h + length d) s) r"
    using lh d(2) r(2) unfolding dh dd by simp
  then have "greedyTable s (h @ d @ r)" unfolding greedyTable_def by blast
  moreover have "s = (h @ d @ r) @ hd (ends tableRegex s)" using h(2) d(1) r(1) by simp
  ultimately show ?thesis by blast
qed

section \<open>Placement of the table parts\<close>

lemma longestPrefix_unique:
  assumes "longestPrefix P s x" "longestPrefix P s y"
  shows "x = y"
proof -
  from assms obtain t t' where s: "s = x @ t" "s = y @ t'" and p: "P x" "P y"
    unfolding longestPrefix_def by blast
  from assms(1) p(2) s(2) have "length y \<le> length x" unfolding longestPrefix_def by blast
  moreover from assms(2) p(1) s(1) have "length x \<le> length y" unfolding longestPrefix_def by blast
  ultimately have "length x = length y" by simp
  with s show ?thesis by (metis append_eq_append_conv)
qed

lemma longestPrefix_rowAt: "longestPrefix isRow s x \<Longrightarrow> rowAt s 0"
  unfolding longestPrefix_def rowAt_def by auto

lemma greedyRows_unique: "greedyRows s r \<Longrightarrow> greedyRows s r' \<Longrightarrow> r = r'"
proof (induction arbitrary: r' rule: greedyRows.induct)
  case (greedyRows_none s)
  from greedyRows_none.prems show ?case
  proof cases
    case greedyRows_none
    then show ?thesis by simp
  next
    case (greedyRows_more x r2)
    with greedyRows_none.hyps longestPrefix_rowAt show ?thesis by blast
  qed
next
  case (greedyRows_more s x r)
  note H = greedyRows_more.hyps and IH = greedyRows_more.IH
  from greedyRows_more.prems show ?case
  proof cases
    case greedyRows_none
    with H(1) longestPrefix_rowAt show ?thesis by blast
  next
    case (greedyRows_more x2 r2)
    from longestPrefix_unique[OF H(1) greedyRows_more(2)] have "x2 = x" by simp
    with greedyRows_more(3) have "greedyRows (drop (length x) s) r2" by simp
    from IH[OF this] greedyRows_more(1) \<open>x2 = x\<close> show ?thesis by simp
  qed
qed

lemma greedyTable_unique:
  assumes "greedyTable s u" "greedyTable s u'"
  shows "u = u'"
proof -
  from assms(1) obtain h d r where 1: "u = h @ d @ r"
    "longestPrefix (\<lambda>x. isRow x \<and> delimiterAfter s x) s h"
    "longestPrefix isDelimiterRow (drop (length h) s) d"
    "greedyRows (drop (length h + length d) s) r" unfolding greedyTable_def by blast
  from assms(2) obtain h' d' r' where 2: "u' = h' @ d' @ r'"
    "longestPrefix (\<lambda>x. isRow x \<and> delimiterAfter s x) s h'"
    "longestPrefix isDelimiterRow (drop (length h') s) d'"
    "greedyRows (drop (length h' + length d') s) r'" unfolding greedyTable_def by blast
  from longestPrefix_unique[OF 1(2) 2(2)] have h: "h' = h" by simp
  with longestPrefix_unique[OF 1(3)] 2(3) have d: "d' = d" by simp
  with greedyRows_unique[OF 1(4)] 2(4) h have "r' = r" by simp
  with h d 1(1) 2(1) show ?thesis by simp
qed

lemma greedyRows_rows:
  "greedyRows s r \<Longrightarrow> \<exists>rows. r = concat rows \<and> (\<forall>x \<in> set rows. isRow x) \<and> (\<exists>t. s = r @ t)"
proof (induction rule: greedyRows.induct)
  case (greedyRows_none s)
  have "[] = concat [] \<and> (\<forall>x \<in> set []. isRow x) \<and> (\<exists>t. s = [] @ t)" by simp
  then show ?case by blast
next
  case (greedyRows_more s x r)
  then obtain rows t where rows: "r = concat rows" "\<forall>x \<in> set rows. isRow x"
    "drop (length x) s = r @ t" by blast
  from greedyRows_more.hyps(1) obtain t' where x: "isRow x" "s = x @ t'"
    unfolding longestPrefix_def by blast
  with rows(3) have "s = (x @ r) @ t" by simp
  moreover have "x @ r = concat (x # rows) \<and> (\<forall>y \<in> set (x # rows). isRow y)"
    using rows x(1) by simp
  ultimately show ?case by blast
qed

lemma greedyTable_table:
  assumes "greedyTable s u"
  shows "isTableText u \<and> (\<exists>t. s = u @ t)"
proof -
  from assms obtain h d r where u: "u = h @ d @ r"
    and h: "longestPrefix (\<lambda>x. isRow x \<and> delimiterAfter s x) s h"
    and d: "longestPrefix isDelimiterRow (drop (length h) s) d"
    and r: "greedyRows (drop (length h + length d) s) r" unfolding greedyTable_def by blast
  from h obtain t1 where h1: "isRow h" "s = h @ t1" unfolding longestPrefix_def by blast
  from d obtain t2 where d1: "isDelimiterRow d" "drop (length h) s = d @ t2"
    unfolding longestPrefix_def by blast
  from greedyRows_rows[OF r] obtain rows t3 where r1: "r = concat rows" "\<forall>x \<in> set rows. isRow x"
    "drop (length h + length d) s = r @ t3" by blast
  from h1(2) d1(2) have "t1 = d @ t2" by simp
  with h1(2) have s2: "s = (h @ d) @ t2" by simp
  then have "drop (length h + length d) s = t2" by (metis append_eq_conv_conj length_append)
  with r1(3) s2 have "s = u @ t3" unfolding u by simp
  moreover have "isTableText u" unfolding isTableText_def u using h1(1) d1(1) r1(1,2) by blast
  ultimately show ?thesis by blast
qed

lemma greedyTable_tableAt: "greedyTable (drop i md) u \<Longrightarrow> tableAt md i"
  unfolding tableAt_def using greedyTable_table by blast

lemma wellPlaced_tblPart:
  assumes "exec tableRegex md li = Some (idx, e)"
  shows "wellPlaced md (tblPart idx (substring md idx e)) idx"
proof -
  from exec_table_bounds[OF assms] have b: "li \<le> idx" "idx < e" "e \<le> length md" by auto
  from exec_Some[OF assms] have m: "ends tableRegex (drop idx md) \<noteq> []" by simp
  from table_greedy[OF m] obtain u where
    u: "drop idx md = u @ hd (ends tableRegex (drop idx md))" "greedyTable (drop idx md) u" by blast
  have "substring md idx e @ drop e md = drop idx md"
    using b by (simp add: substring_le take_drop_split)
  then have "substring md idx e @ hd (ends tableRegex (drop idx md)) =
      u @ hd (ends tableRegex (drop idx md))"
    using u(1) exec_Some_drop[OF assms] by metis
  then have "substring md idx e = u" by (simp only: append_same_eq)
  with u(2) show ?thesis by (simp add: wellPlaced_def tblPart_def)
qed

lemma wellPlaced_gap:
  assumes "exec tableRegex md li = Some (idx, e)"
  shows "wellPlaced md (mdPart li (substring md li idx)) li"
proof -
  from exec_table_bounds[OF assms] have b: "li \<le> idx" "idx < e" "e \<le> length md" by auto
  then have l: "li + length (substring md li idx) = idx" by (simp add: length_substring)
  from exec_Some[OF assms] have "\<forall>j. li \<le> j \<and> j < idx \<longrightarrow> \<not> tableAt md j"
    unfolding tableAt_ends by simp
  with l show ?thesis by (simp add: wellPlaced_def mdPart_def)
qed

lemma wellPlaced_tail:
  assumes "exec tableRegex md li = None" "li \<le> length md"
  shows "wellPlaced md (mdPart li (drop li md)) li"
proof -
  from assms(1) have "\<forall>j. li \<le> j \<and> j \<le> length md \<longrightarrow> \<not> tableAt md j"
    unfolding tableAt_ends exec_None_iff by simp
  with assms(2) show ?thesis by (simp add: wellPlaced_def mdPart_def)
qed

lemma segs_wellPlaced:
  "segs md li ps \<Longrightarrow> li \<le> length md \<Longrightarrow> list_all2 (wellPlaced md) ps (offsets li ps)"
proof (induction rule: segs.induct)
  case (segs_end li)
  then show ?case by simp
next
  case (segs_tail li)
  then show ?case by (simp add: wellPlaced_tail)
next
  case (segs_table li idx e ps)
  from exec_table_bounds[OF segs_table.hyps(1)] segs_table.hyps(2)
  have b: "li = idx" "idx < e" "e \<le> length md" by auto
  then have l: "idx + length (substring md idx e) = e" by (simp add: length_substring)
  have c: "content (tblPart idx (substring md idx e)) = substring md idx e" by (simp add: tblPart_def)
  from segs_table.IH b have "list_all2 (wellPlaced md) ps (offsets e ps)" by simp
  with wellPlaced_tblPart[OF segs_table.hyps(1)] show ?case
    unfolding b(1) by (simp add: c l)
next
  case (segs_gap li idx e ps)
  from exec_table_bounds[OF segs_gap.hyps(1)]
  have b: "li \<le> idx" "idx < e" "e \<le> length md" by auto
  then have l: "idx + length (substring md idx e) = e" "li + length (substring md li idx) = idx"
    by (simp_all add: length_substring)
  have c: "content (tblPart idx (substring md idx e)) = substring md idx e"
    "content (mdPart li (substring md li idx)) = substring md li idx"
    by (simp_all add: tblPart_def mdPart_def)
  from segs_gap.IH b have "list_all2 (wellPlaced md) ps (offsets e ps)" by simp
  with wellPlaced_tblPart[OF segs_gap.hyps(1)] wellPlaced_gap[OF segs_gap.hyps(1)] show ?case
    by (simp add: c l)
qed

lemma segs_segmentation:
  assumes "segs md li ps" "li \<le> length md"
  shows "segmentation md li ps"
  unfolding segmentation_def
  using segs_concat[OF assms] segs_alternate[OF assms] segs_nonempty[OF assms] segs_wellPlaced[OF assms]
  by blast

lemma segmentation_Cons:
  assumes "segmentation md i (q # qs)"
  shows "content q \<noteq> []" "wellPlaced md q i" "segmentation md (i + length (content q)) qs"
    "qs = [] \<or> type_part (hd qs) \<noteq> type_part q" "drop i md = content q @ concat (map content qs)"
proof -
  from assms have c: "content q @ concat (map content qs) = drop i md"
    and a: "distinct_adj (map type_part (q # qs))"
    and n: "\<forall>p \<in> set (q # qs). content p \<noteq> []"
    and w: "list_all2 (wellPlaced md) (q # qs) (offsets i (q # qs))"
    unfolding segmentation_def by simp_all
  show "content q \<noteq> []" using n by simp
  show "wellPlaced md q i" using w by simp
  show "drop i md = content q @ concat (map content qs)" using c by simp
  show "qs = [] \<or> type_part (hd qs) \<noteq> type_part q" using a by (cases qs) auto
  have "concat (map content qs) = drop (length (content q)) (drop i md)"
    using c by (metis append_eq_conv_conj)
  then have "concat (map content qs) = drop (i + length (content q)) md" by (simp add: add.commute)
  moreover have "distinct_adj (map type_part qs)" using a by (cases qs) auto
  ultimately show "segmentation md (i + length (content q)) qs"
    unfolding segmentation_def using n w by simp
qed

lemma wellPlaced_kind:
  assumes "wellPlaced md q i" "content q \<noteq> []"
  shows "type_part q = table \<longleftrightarrow> tableAt md i"
proof (cases "type_part q")
  case markdown
  with assms have "\<not> tableAt md i" unfolding wellPlaced_def by simp
  with markdown show ?thesis by simp
next
  case table
  with assms have "greedyTable (drop i md) (content q)" unfolding wellPlaced_def by simp
  from greedyTable_tableAt[OF this] table show ?thesis by simp
qed

lemma prose_length:
  assumes q: "segmentation md i (q # qs)" and q': "segmentation md i (q' # qs')"
    and k: "type_part q = markdown" "type_part q' = markdown"
  shows "\<not> length (content q) < length (content q')"
proof
  assume l: "length (content q) < length (content q')"
  note Q = segmentation_Cons[OF q] and Q' = segmentation_Cons[OF q']
  have "length (content q') \<le> length (drop i md)" unfolding Q'(5) by simp
  with l have "length (content q) < length (content q @ concat (map content qs))"
    unfolding Q(5)[symmetric] by simp
  then have "qs \<noteq> []" by auto
  then obtain p rest where qs: "qs = p # rest" by (cases qs) auto
  with Q(4) k(1) have t: "type_part p = table" by (cases "type_part p") auto
  note P = segmentation_Cons[OF Q(3)[unfolded qs]]
  from wellPlaced_kind[OF P(2) P(1)] t have "tableAt md (i + length (content q))" by simp
  moreover from Q'(2) k(2) l have "\<not> tableAt md (i + length (content q))"
    unfolding wellPlaced_def by simp
  ultimately show False by simp
qed

lemma segmentation_unique:
  "segmentation md i qs \<Longrightarrow> segmentation md i qs' \<Longrightarrow> kindsAndTexts qs = kindsAndTexts qs'"
proof (induction qs arbitrary: i qs')
  case Nil
  then have "drop i md = []" unfolding segmentation_def by simp
  moreover from Nil.prems(2) have "concat (map content qs') = drop i md"
    "\<forall>p \<in> set qs'. content p \<noteq> []"
    unfolding segmentation_def by blast+
  ultimately have "concat (map content qs') = []" "\<forall>p \<in> set qs'. content p \<noteq> []" by simp_all
  then have "qs' = []" by (cases qs') auto
  then show ?case by simp
next
  case (Cons q qs)
  note Q = segmentation_Cons[OF Cons.prems(1)]
  have "qs' \<noteq> []"
  proof
    assume "qs' = []"
    with Cons.prems(2) have "drop i md = []" unfolding segmentation_def by simp
    with Q(5) Q(1) show False by simp
  qed
  then obtain q' rest' where qs': "qs' = q' # rest'" by (cases qs') auto
  note Q' = segmentation_Cons[OF Cons.prems(2)[unfolded qs']]
  from wellPlaced_kind[OF Q(2) Q(1)] wellPlaced_kind[OF Q'(2) Q'(1)]
  have k: "type_part q = type_part q'" by (cases "type_part q"; cases "type_part q'") auto
  have c: "content q = content q'"
  proof (cases "type_part q")
    case table
    with k Q(2) Q'(2) have "greedyTable (drop i md) (content q)" "greedyTable (drop i md) (content q')"
      unfolding wellPlaced_def by simp_all
    then show ?thesis by (rule greedyTable_unique)
  next
    case markdown
    with k have m: "type_part q = markdown" "type_part q' = markdown" by simp_all
    from prose_length[OF Cons.prems(1) Cons.prems(2)[unfolded qs'] m]
      prose_length[OF Cons.prems(2)[unfolded qs'] Cons.prems(1) m(2,1)]
    have "length (content q) = length (content q')" by simp
    moreover have "content q @ concat (map content qs) = content q' @ concat (map content rest')"
      using Q(5) Q'(5) by simp
    ultimately show ?thesis by (metis append_eq_append_conv)
  qed
  from Q'(3) c have "segmentation md (i + length (content q)) rest'" by simp
  from Cons.IH[OF Q(3) this] k c show ?case unfolding qs' by (simp add: kindsAndTexts_def)
qed

text \<open>
  The greedy table is not always the longest text of the shape of a table: the header
  takes the second pipe pair of \<open>|a||-|||-|x|\<close> too, the delimiter row ends before
  \<open>x\<close>, and \<open>x|\<close> is left as prose, although the whole line has the shape of a table
  with the header \<open>|a|\<close>.
\<close>

lemma greedy_not_longest:
  "parseMarkdown (str ''|a||-|||-|x|'') =
     Some [tblPart 0 (str ''|a||-|||-|''), mdPart 10 (str ''x|'')] \<and>
   isTableText (str ''|a||-|||-|x|'')"
proof
  show "parseMarkdown (str ''|a||-|||-|x|'') =
     Some [tblPart 0 (str ''|a||-|||-|''), mdPart 10 (str ''x|'')]"
    by (simp add: eval_simps tblPart_def mdPart_def)
  have "[] \<in> set (ends tableRegex (str ''|a||-|||-|x|''))"
    by (simp add: eval_simps)
  then have "str ''|a||-|||-|x|'' \<in> lang tableRegex" unfolding ends_lang by simp
  then show "isTableText (str ''|a||-|||-|x|'')" unfolding lang_tableRegex by simp
qed

text \<open>
  C2, as the claim states it: a header row with a pipe followed by a delimiter row of
  pipes and hyphens would be a table. The code makes the two lines one prose part: the
  rows of \<open>tableRegex\<close> begin and end with a pipe.
\<close>

theorem table_rule_counterexample:
  "specTableRegion [str ''a | b'', str ''|---|''] \<and>
   parseMarkdown (join [LF] [str ''a | b'', str ''|---|'']) =
     Some [mdPart 0 (str ''a | b\<newline>|---|'')]"
  by (simp add: eval_simps mdPart_def)

text \<open>
  C2, amended. The parts that \<open>parseMarkdown\<close> returns segment the document: their
  texts are the document in order without overlap, table and prose parts alternate, and
  no part is empty. Every table part is the greedy table that begins at its offset: the
  longest header row, beginning and ending with a pipe, after which a delimiter row
  begins; then the longest delimiter row, a pipe and one or more groups of hyphens and a
  pipe; then every further row, each the longest that begins where the one before ends,
  until no row begins. Each of these rows takes the line break after it when there is
  one. No table begins at any offset inside a prose part. No other sequence of kinds and
  texts segments the document in this way: the table parts are exactly the greedy
  matches found from left to right, each search starting where the match before ends.
\<close>

theorem table_parts_placed:
  "\<exists>ps. parseMarkdown md = Some ps \<and> segmentation md 0 ps \<and>
        (\<forall>qs. segmentation md 0 qs \<longrightarrow> kindsAndTexts qs = kindsAndTexts ps)"
proof -
  obtain ps where ps: "parseMarkdown md = Some ps" "segs md 0 ps"
    using parseMarkdown_segs by blast
  have s: "segmentation md 0 ps" using ps(2) by (rule segs_segmentation) simp
  then have "\<forall>qs. segmentation md 0 qs \<longrightarrow> kindsAndTexts qs = kindsAndTexts ps"
    using segmentation_unique by blast
  with ps(1) s show ?thesis by blast
qed

theorem table_parts_placed_witness:
  "segmentation (str ''|a|\<newline>|-|\<newline>|1|'') 0 [tblPart 0 (str ''|a|\<newline>|-|\<newline>|1|'')] \<and>
   greedyTable (str ''|a|\<newline>|-|\<newline>|1|'') (str ''|a|\<newline>|-|\<newline>|1|'') \<and>
   \<not> segmentation (str ''|a|\<newline>|-|\<newline>|1|'') 0
       [tblPart 0 (str ''|a|\<newline>|-|''), mdPart 7 (str ''\<newline>|1|'')]"
proof -
  let ?md = "str ''|a|\<newline>|-|\<newline>|1|''"
  let ?ps = "[tblPart 0 ?md]"
  let ?qs = "[tblPart 0 (str ''|a|\<newline>|-|''), mdPart 7 (str ''\<newline>|1|'')]"
  have p: "parseMarkdown ?md = Some ?ps" by (simp add: eval_simps tblPart_def)
  from table_parts_placed[of ?md] obtain ps where ps: "parseMarkdown ?md = Some ps"
    "segmentation ?md 0 ps"
    "\<forall>qs. segmentation ?md 0 qs \<longrightarrow> kindsAndTexts qs = kindsAndTexts ps" by blast
  from ps(1) p have e: "ps = ?ps" by (simp only: option.inject)
  note s = ps(2)[unfolded e] and u = ps(3)[unfolded e]
  from s have "list_all2 (wellPlaced ?md) ?ps (offsets 0 ?ps)" unfolding segmentation_def by blast
  then have "wellPlaced ?md (tblPart 0 ?md) 0" by (simp only: offsets.simps list_all2_Cons)
  then have g: "greedyTable ?md ?md"
    by (simp only: wellPlaced_def tblPart_def DocumentPart.simps part_type.case drop_0)
  have "kindsAndTexts ?qs \<noteq> kindsAndTexts ?ps"
    by (simp add: kindsAndTexts_def tblPart_def mdPart_def)
  with u have "\<not> segmentation ?md 0 ?qs" by blast
  with s g show ?thesis by (intro conjI)
qed

section \<open>Two tables and a blank line\<close>

lemma lbOk_tl: "lbOk (x # z) \<Longrightarrow> lbOk z"
  by (cases z) auto

lemma lbOk_plain_Cons: "c \<noteq> CR \<Longrightarrow> c \<noteq> LF \<Longrightarrow> lbOk (c # w) = lbOk w"
  by (cases w) auto

lemma lbOk_append:
  "lbOk u \<Longrightarrow> lbOk v \<Longrightarrow> v = [] \<or> hd v = pipe \<Longrightarrow> lbOk (u @ v)"
proof (induction u rule: lbOk.induct)
  case 1
  then show ?case by simp
next
  case (2 x)
  then show ?case by (cases v) auto
next
  case (3 x y zs)
  then show ?case by simp
qed

lemma lbOk_prefix: "lbOk (u @ v) \<Longrightarrow> lbOk u"
proof (induction u rule: lbOk.induct)
  case 1
  then show ?case by simp
next
  case (2 x)
  then show ?case by simp
next
  case (3 x y zs)
  then show ?case by simp
qed

lemma lbOk_break: "n = [] \<or> n \<in> lineBreaks \<Longrightarrow> lbOk n"
  by (auto simp: lineBreaks_def CR_def LF_def)

lemma lbOk_plain_break:
  "\<forall>c \<in> set v. c \<noteq> CR \<and> c \<noteq> LF \<Longrightarrow> n = [] \<or> n \<in> lineBreaks \<Longrightarrow> lbOk (v @ n)"
proof (induction v)
  case Nil
  then show ?case using lbOk_break by simp
next
  case (Cons c v)
  then have "lbOk (v @ n)" by simp
  moreover from Cons.prems(1) have "c \<noteq> CR" "c \<noteq> LF" by simp_all
  ultimately show ?case using lbOk_plain_Cons[of c "v @ n"] by simp
qed

lemma not_lineTerminator: "\<not> lineTerminator c \<Longrightarrow> c \<noteq> CR \<and> c \<noteq> LF"
  using lineTerminator_CR lineTerminator_LF by blast

lemma isRow_lbOk:
  assumes "isRow u"
  shows "lbOk u"
proof -
  from assms obtain d n where u: "u = pipe # d @ pipe # n" "\<forall>c \<in> set d. \<not> lineTerminator c"
    "n = [] \<or> n \<in> lineBreaks" unfolding isRow_def by blast
  have "\<forall>c \<in> set (pipe # d @ [pipe]). c \<noteq> CR \<and> c \<noteq> LF"
    using u(2) not_lineTerminator by (auto simp: pipe_def CR_def LF_def)
  from lbOk_plain_break[OF this u(3)] show ?thesis unfolding u(1) by simp
qed

lemma groups_plain:
  "\<forall>g \<in> set gs. \<exists>k. 0 < k \<and> g = replicate k hyphen @ [pipe] \<Longrightarrow>
   \<forall>c \<in> set (concat gs). c \<noteq> CR \<and> c \<noteq> LF"
  by (induction gs) (auto simp: LF_def CR_def pipe_def hyphen_def)

lemma isDelimiterRow_lbOk:
  assumes "isDelimiterRow u"
  shows "lbOk u"
proof -
  from assms obtain gs n where u: "u = pipe # concat gs @ n" "gs \<noteq> []"
    "\<forall>g \<in> set gs. \<exists>k. 0 < k \<and> g = replicate k hyphen @ [pipe]"
    "n = [] \<or> n \<in> lineBreaks" unfolding isDelimiterRow_def by blast
  have "\<forall>c \<in> set (pipe # concat gs). c \<noteq> CR \<and> c \<noteq> LF"
    using groups_plain[OF u(3)] by (auto simp: pipe_def CR_def LF_def)
  from lbOk_plain_break[OF this u(4)] show ?thesis unfolding u(1) by simp
qed

lemma rows_lbOk:
  "\<forall>x \<in> set rows. isRow x \<Longrightarrow> lbOk (concat rows) \<and> (concat rows = [] \<or> hd (concat rows) = pipe)"
proof (induction rows)
  case Nil
  then show ?case by simp
next
  case (Cons r rows)
  then have r: "isRow r" and IH: "lbOk (concat rows)" "concat rows = [] \<or> hd (concat rows) = pipe"
    by auto
  from isRow_pipe[OF r] have p: "r \<noteq> []" "hd r = pipe" by auto
  have "lbOk (r @ concat rows)" using isRow_lbOk[OF r] IH by (rule lbOk_append)
  with p show ?case by simp
qed

lemma isTableText_lbOk:
  assumes "isTableText u"
  shows "lbOk u"
proof -
  from assms obtain h d rows where u: "u = h @ d @ concat rows" "isRow h" "isDelimiterRow d"
    "\<forall>x \<in> set rows. isRow x" unfolding isTableText_def by blast
  from rows_lbOk[OF u(4)] have r: "lbOk (concat rows)" "concat rows = [] \<or> hd (concat rows) = pipe"
    by auto
  have a: "lbOk (d @ concat rows)" using isDelimiterRow_lbOk[OF u(3)] r by (rule lbOk_append)
  have b: "d @ concat rows = [] \<or> hd (d @ concat rows) = pipe"
    using isDelimiterRow_pipe[OF u(3)] by simp
  show ?thesis unfolding u(1) using isRow_lbOk[OF u(2)] a b by (rule lbOk_append)
qed

lemma lbOk_not_across:
  assumes "b \<in> lineBreaks" "c = CR \<or> c = LF" "\<not> (b = [CR] \<and> c = LF)"
  shows "\<not> lbOk (w @ b @ c # y)"
proof (induction w)
  case Nil
  from assms show ?case by (auto simp: lineBreaks_def CR_def LF_def pipe_def)
next
  case (Cons x w)
  then show ?case using lbOk_tl[of x "w @ b @ c # y"] by auto
qed

lemma lineBreaks_hd: "b \<in> lineBreaks \<Longrightarrow> b \<noteq> [] \<and> (hd b = CR \<or> hd b = LF) \<and> (hd b = LF \<longrightarrow> b = [LF])"
  by (auto simp: lineBreaks_def CR_def LF_def)

lemma table_not_across_breaks:
  assumes t: "isTableText v" and e: "v @ h = w @ b1 @ b2 @ y"
    and b: "b1 \<in> lineBreaks" "b2 \<in> lineBreaks" "\<not> (b1 = [CR] \<and> b2 = [LF])"
  shows "length v \<le> length w + length b1"
proof (rule ccontr)
  assume n: "\<not> length v \<le> length w + length b1"
  from lineBreaks_hd[OF b(2)] obtain c r where b2: "b2 = c # r" "c = CR \<or> c = LF" "c = LF \<longrightarrow> b2 = [LF]"
    by (cases b2) auto
  from n have l: "length (w @ b1 @ [c]) \<le> length v" by simp
  from e b2(1) have "v @ h = (w @ b1 @ [c]) @ (r @ y)" by simp
  with l obtain z where "v = (w @ b1 @ [c]) @ z"
    by (metis append_eq_append_conv_if append_take_drop_id)
  then have v: "v = w @ b1 @ c # z" by simp
  have "\<not> (b1 = [CR] \<and> c = LF)" using b(3) b2(3) by blast
  from lbOk_not_across[OF b(1) b2(2) this] isTableText_lbOk[OF t] show False unfolding v by blast
qed

lemma no_table_at_break: "c = CR \<or> c = LF \<Longrightarrow> ends tableRegex (c # s) = []"
proof (rule ccontr)
  assume c: "c = CR \<or> c = LF" and "ends tableRegex (c # s) \<noteq> []"
  then obtain v h where v: "c # s = v @ h" "isTableText v" unfolding table_match_iff by blast
  from isTableText_pipe[OF v(2)] v(1) have "c = pipe" by (cases v) auto
  with c show False by (auto simp: LF_def CR_def pipe_def)
qed

lemma table_kept_breaks:
  assumes m: "ends tableRegex (u @ x) \<noteq> []" "hd (ends tableRegex (u @ x)) = x"
    and b: "b1 \<in> lineBreaks" "b2 \<in> lineBreaks" "\<not> (b1 = [CR] \<and> b2 = [LF])"
  shows "ends tableRegex (u @ b1 @ b2 @ y) \<noteq> [] \<and>
         (\<exists>w w'. b1 = w @ w' \<and> hd (ends tableRegex (u @ b1 @ b2 @ y)) = w' @ b2 @ y)"
proof -
  let ?x = "b1 @ b2 @ y"
  let ?P = "\<lambda>t. length ?x \<le> length t"
  let ?h = "hd (ends tableRegex (u @ ?x))"
  from first_local[OF m] have n: "ends tableRegex u \<noteq> []" "hd (ends tableRegex u) = []" by auto
  have f: "filter ?P (ends tableRegex (u @ ?x)) = map (\<lambda>t. t @ ?x) (ends tableRegex u)"
    by (rule ends_local)
  with n(1) have ne: "ends tableRegex (u @ ?x) \<noteq> []" by (cases "ends tableRegex (u @ ?x)") auto
  have fh: "hd (filter ?P (ends tableRegex (u @ ?x))) = ?x"
    unfolding f using n by (simp add: hd_map)
  have "\<exists>w w'. b1 = w @ w' \<and> ?h = w' @ b2 @ y"
  proof (cases "?P ?h")
    case True
    with hd_filter[OF ne, of ?P] fh have "?h = ?x" by simp
    then have "b1 = [] @ b1 \<and> ?h = b1 @ b2 @ y" by simp
    then show ?thesis by blast
  next
    case False
    from ne have "?h \<in> set (ends tableRegex (u @ ?x))" by simp
    then obtain v where v: "v \<in> lang tableRegex" "u @ ?x = v @ ?h" unfolding ends_lang by blast
    then have t: "isTableText v" unfolding lang_tableRegex by simp
    from table_not_across_breaks[OF t v(2)[symmetric] b] have l: "length v \<le> length u + length b1" .
    from v(2) have le: "length u + length ?x = length v + length ?h" by (metis length_append)
    with False have g: "length u < length v" by simp
    from v(2) have "(u @ b1) @ (b2 @ y) = v @ ?h" by simp
    moreover from l have "length v \<le> length (u @ b1)" by simp
    ultimately obtain w' where w': "u @ b1 = v @ w'"
      by (metis append_eq_append_conv_if append_take_drop_id)
    with g obtain w where w: "v = u @ w"
      by (metis append_eq_append_conv_if append_take_drop_id less_imp_le)
    from w w' have b1: "b1 = w @ w'" by simp
    from v(2) w b1 have "?h = w' @ b2 @ y" by simp
    with b1 show ?thesis by blast
  qed
  with ne show ?thesis by simp
qed

lemma single_table_whole:
  assumes "map_option (map type_part) (parseMarkdown t) = Some [table]"
  shows "ends tableRegex t \<noteq> [] \<and> hd (ends tableRegex t) = []"
proof -
  obtain ps where ps: "parseMarkdown t = Some ps" "segs t 0 ps" using parseMarkdown_segs by blast
  with assms obtain p where p: "ps = [p]" "type_part p = table" by auto
  from ps(2)[unfolded p(1)] p(2) obtain e where
    x: "exec tableRegex t 0 = Some (0, e)" and r: "segs t e []" by (rule segs_first_table)
  from r have "\<not> e < length t" by cases
  with exec_table_bounds(3)[OF x] have e: "e = length t" by simp
  from exec_Some[OF x] have m: "ends tableRegex t \<noteq> []"
    "e = length t - length (hd (ends tableRegex t))" by simp_all
  from m(1) have "hd (ends tableRegex t) \<in> set (ends tableRegex t)" by simp
  from ends_tableRegex_less[OF this] m(2) e have "length (hd (ends tableRegex t)) = 0" by arith
  with m(1) show ?thesis by simp
qed

lemma lineBreaks_chars: "b \<in> lineBreaks \<Longrightarrow> \<forall>c \<in> set b. c = CR \<or> c = LF"
  by (auto simp: lineBreaks_def)

lemma no_table_in_breaks:
  assumes "\<forall>c \<in> set bs. c = CR \<or> c = LF" "k < length bs"
  shows "ends tableRegex (drop k bs @ t) = []"
proof -
  from assms(2) have "drop k bs = bs ! k # drop (Suc k) bs" by (simp add: Cons_nth_drop_Suc)
  moreover from assms have "bs ! k = CR \<or> bs ! k = LF" by simp
  ultimately show ?thesis using no_table_at_break[of "bs ! k" "drop (Suc k) bs @ t"] by simp
qed

text \<open>
  C4, as the claim states it: two tables separated by one blank line would give exactly
  two table parts. The code does not return that.
\<close>

theorem two_tables_counterexample:
  "map_option (map type_part)
     (parseMarkdown (str ''|a|\<newline>|-|\<newline>|1|\<newline>\<newline>|b|\<newline>|-|\<newline>|2|'')) \<noteq>
   Some [table, table]"
  by (simp add: eval_simps)

text \<open>
  C4, amended. One blank line is two line breaks, each of them \<open>\n\<close>, \<open>\r\n\<close> or
  \<open>\r\<close>, but not \<open>\r\<close> followed by \<open>\n\<close>, which is the one line break \<open>\r\n\<close>. For
  two texts that are each a single table part on their own, the first, two such line
  breaks and the second give exactly three parts: a table part, a prose part that is not
  empty, and a table part with the second text. The first two parts together hold the
  first text and the two line breaks, so the gap is kept as prose.
\<close>

theorem two_tables_blank_line:
  assumes "map_option (map type_part) (parseMarkdown t1) = Some [table]"
    and "map_option (map type_part) (parseMarkdown t2) = Some [table]"
    and "b1 \<in> lineBreaks" and "b2 \<in> lineBreaks" and "\<not> (b1 = [CR] \<and> b2 = [LF])"
  shows "\<exists>a g b. parseMarkdown (t1 @ b1 @ b2 @ t2) = Some [a, g, b] \<and>
           type_part a = table \<and> type_part g = markdown \<and> type_part b = table \<and>
           content g \<noteq> [] \<and> content a @ content g = t1 @ b1 @ b2 \<and> content b = t2"
proof -
  let ?F = "t1 @ b1 @ b2 @ t2"
  let ?L = "length t1 + length b1 + length b2"
  from single_table_whole[OF assms(1)] have m1: "ends tableRegex (t1 @ []) \<noteq> []"
    "hd (ends tableRegex (t1 @ [])) = []" by simp_all
  from single_table_whole[OF assms(2)] have m2: "ends tableRegex t2 \<noteq> []"
    "hd (ends tableRegex t2) = []" by simp_all
  from table_kept_breaks[OF m1 assms(3,4,5), of t2] obtain w w' where
    m: "ends tableRegex ?F \<noteq> []" and w: "b1 = w @ w'" and h: "hd (ends tableRegex ?F) = w' @ b2 @ t2"
    by blast
  from assms(4) have b2: "b2 \<noteq> []" by (auto simp: lineBreaks_def)
  define e where "e = length ?F - length (hd (ends tableRegex ?F))"
  have e: "e = length t1 + length w" unfolding e_def h by (simp add: w)
  have x0: "exec tableRegex ?F 0 = Some (0, e)"
    using exec_here[of 0 ?F tableRegex] m unfolding e_def by simp
  have d2: "drop ?L ?F = t2" by simp
  have x2: "exec tableRegex ?F ?L = Some (?L, length ?F)"
    using exec_here[of ?L ?F tableRegex] m2 unfolding d2 by simp
  have bs: "\<forall>c \<in> set (b1 @ b2). c = CR \<or> c = LF"
    using lineBreaks_chars[OF assms(3)] lineBreaks_chars[OF assms(4)] by auto
  have n: "\<forall>j. e \<le> j \<and> j < ?L \<longrightarrow> ends tableRegex (drop j ?F) = []"
  proof (intro allI impI)
    fix j assume j: "e \<le> j \<and> j < ?L"
    with e have k: "length t1 \<le> j" "j - length t1 < length (b1 @ b2)" by auto
    have "drop j ?F = drop (j - length t1) (b1 @ b2) @ t2" using k by simp
    with no_table_in_breaks[OF bs k(2), of t2] show "ends tableRegex (drop j ?F) = []" by simp
  qed
  have el: "e < ?L" "?L \<le> length ?F" using e w b2 by auto
  have "exec tableRegex ?F e = exec tableRegex ?F ?L"
    using _ _ n by (rule exec_skip) (use el in auto)
  with x2 have x1: "exec tableRegex ?F e = Some (?L, length ?F)" by simp
  have "segs ?F (length ?F) []" by (rule segs_end) (simp_all add: exec_at_end[of ?F, simplified])
  with x1 have "segs ?F e [mdPart e (substring ?F e ?L), tblPart ?L (substring ?F ?L (length ?F))]"
    by (intro segs_gap) (use el in auto)
  with x0 have "segs ?F 0 [tblPart 0 (substring ?F 0 e), mdPart e (substring ?F e ?L),
      tblPart ?L (substring ?F ?L (length ?F))]"
    by (intro segs_table) simp_all
  from segs_parseMarkdown[OF this]
  have p: "parseMarkdown (t1 @ b1 @ b2 @ t2) = Some [tblPart 0 (substring ?F 0 e),
      mdPart e (substring ?F e ?L), tblPart ?L (substring ?F ?L (length ?F))]" by simp
  have c1: "substring ?F 0 e @ substring ?F e ?L = t1 @ b1 @ b2"
  proof -
    have "substring ?F 0 e @ substring ?F e ?L = take e ?F @ take (?L - e) (drop e ?F)"
      using el by (simp add: substring_le)
    also have "\<dots> = take ?L ?F" using el(1) by (metis le_add_diff_inverse less_imp_le take_add)
    also have "\<dots> = t1 @ b1 @ b2" by simp
    finally show ?thesis .
  qed
  have c2: "substring ?F ?L (length ?F) = t2" by (simp add: substring_le)
  have c3: "substring ?F e ?L \<noteq> []"
  proof -
    have "length (substring ?F e ?L) = ?L - e" using el by (intro length_substring) simp_all
    with el(1) show ?thesis by auto
  qed
  show ?thesis
    unfolding p using c1 c2 c3 by (simp add: tblPart_def mdPart_def)
qed

theorem two_tables_blank_line_witness:
  "map_option (map type_part) (parseMarkdown (str ''|a|\<newline>|-|\<newline>|1|'')) = Some [table] \<and>
   map_option (map type_part) (parseMarkdown (str ''|b|\<newline>|-|\<newline>|2|'')) = Some [table] \<and>
   [CR, LF] \<in> lineBreaks \<and> [CR] \<in> lineBreaks \<and> \<not> ([CR, LF] = [CR] \<and> [CR] = [LF]) \<and>
   (\<exists>a g b. parseMarkdown (str ''|a|\<newline>|-|\<newline>|1|'' @ [CR, LF] @ [CR] @ str ''|b|\<newline>|-|\<newline>|2|'') = Some [a, g, b] \<and>
           type_part a = table \<and> type_part g = markdown \<and> type_part b = table \<and>
           content g \<noteq> [] \<and> content a @ content g = str ''|a|\<newline>|-|\<newline>|1|'' @ [CR, LF] @ [CR] \<and>
           content b = str ''|b|\<newline>|-|\<newline>|2|'')"
proof -
  have h1: "map_option (map type_part) (parseMarkdown (str ''|a|\<newline>|-|\<newline>|1|'')) = Some [table]"
    by (simp add: eval_simps)
  have h2: "map_option (map type_part) (parseMarkdown (str ''|b|\<newline>|-|\<newline>|2|'')) = Some [table]"
    by (simp add: eval_simps)
  have h3: "[CR, LF] \<in> lineBreaks" by (simp add: lineBreaks_def)
  have h4: "[CR] \<in> lineBreaks" by (simp add: lineBreaks_def)
  have h5: "\<not> ([CR, LF] = [CR] \<and> [CR] = [LF])" by simp
  from h1 h2 h3 h4 h5 two_tables_blank_line[OF h1 h2 h3 h4 h5] show ?thesis by blast
qed

end
